theory Spec2Isabelle
  imports Main "HOL-Library.AList"
begin

section \<open>Strings\<close>

text \<open>
  A JavaScript string is a sequence of UTF-16 code units. It is modelled as a list of
  natural numbers, one per code unit, so that the en dash (code unit 8211) that
  \<open>pagesNormalize\<close> writes has a value of its own. \<open>js\<close> turns an ASCII literal into such
  a list.
\<close>

type_synonym jsstring = "nat list"

definition js :: "string \<Rightarrow> jsstring" where
  "js s = map of_char s"

text \<open>The code units the source names in its literals and patterns.\<close>

abbreviation c_at :: nat where "c_at \<equiv> 64"
abbreviation c_lbrace :: nat where "c_lbrace \<equiv> 123"
abbreviation c_rbrace :: nat where "c_rbrace \<equiv> 125"

abbreviation c_comma :: nat where "c_comma \<equiv> 44"
abbreviation c_hyphen :: nat where "c_hyphen \<equiv> 45"
abbreviation c_dot :: nat where "c_dot \<equiv> 46"
abbreviation c_colon :: nat where "c_colon \<equiv> 58"
abbreviation c_semi :: nat where "c_semi \<equiv> 59"
abbreviation c_eq :: nat where "c_eq \<equiv> 61"
abbreviation c_dquote :: nat where "c_dquote \<equiv> 34"
abbreviation c_space :: nat where "c_space \<equiv> 32"
abbreviation c_newline :: nat where "c_newline \<equiv> 10"
abbreviation c_endash :: nat where "c_endash \<equiv> 8211"

text \<open>
  The classes of code units the patterns use. \<open>is_space\<close> is the class \<open>\s\<close> of
  ECMAScript (white space and line terminators), which is also what \<open>trim\<close> removes;
  \<open>is_word\<close> is \<open>\w\<close>, which decides \<open>\b\<close>.
\<close>

definition is_space :: "nat \<Rightarrow> bool" where
  "is_space c \<longleftrightarrow> (9 \<le> c \<and> c \<le> 13) \<or> c = 32 \<or> c = 160 \<or> c = 5760
     \<or> (8192 \<le> c \<and> c \<le> 8202) \<or> c = 8232 \<or> c = 8233 \<or> c = 8239 \<or> c = 8287
     \<or> c = 12288 \<or> c = 65279"

definition is_digit :: "nat \<Rightarrow> bool" where
  "is_digit c \<longleftrightarrow> 48 \<le> c \<and> c \<le> 57"

definition is_lower :: "nat \<Rightarrow> bool" where
  "is_lower c \<longleftrightarrow> 97 \<le> c \<and> c \<le> 122"

definition is_upper :: "nat \<Rightarrow> bool" where
  "is_upper c \<longleftrightarrow> 65 \<le> c \<and> c \<le> 90"

definition is_word :: "nat \<Rightarrow> bool" where
  "is_word c \<longleftrightarrow> is_lower c \<or> is_upper c \<or> is_digit c \<or> c = 95"

text \<open>
  \<open>toLowerCase\<close> and \<open>toUpperCase\<close> of a code unit. The two are the Unicode case
  mappings on the code units below 256 (Basic Latin and Latin-1: the sharp s becomes
  \<open>SS\<close>, the micro sign and the y with diaeresis leave Latin-1); a code unit from 256 on
  is left as it is, which is not what the Unicode tables say for every one of them.
  The statements below that depend on a case mapping are about strings of code units
  below 256.
\<close>

definition lower_cu :: "nat \<Rightarrow> nat" where
  "lower_cu c = (if is_upper c \<or> (192 \<le> c \<and> c \<le> 222 \<and> c \<noteq> 215) then c + 32 else c)"

definition upper_cu :: "nat \<Rightarrow> jsstring" where
  "upper_cu c = (if is_lower c \<or> (224 \<le> c \<and> c \<le> 254 \<and> c \<noteq> 247) then [c - 32]
                 else if c = 223 then [83, 83]
                 else if c = 181 then [924]
                 else if c = 255 then [376]
                 else [c])"

definition toLowerCase :: "jsstring \<Rightarrow> jsstring" where
  "toLowerCase s = map lower_cu s"

definition toUpperCase :: "jsstring \<Rightarrow> jsstring" where
  "toUpperCase s = concat (map upper_cu s)"

text \<open>
  \<open>Canonicalize\<close> of ECMAScript for a pattern with the flag \<open>i\<close> and without \<open>u\<close>: a
  code unit is compared through its upper case, and a code unit from 128 on never
  becomes one below 128. Every literal of the patterns below is ASCII, so a code unit of
  the text equals a literal up to case exactly when the two agree after \<open>a-z\<close> is
  mapped to \<open>A-Z\<close>.
\<close>

definition canon :: "nat \<Rightarrow> nat" where
  "canon c = (if is_lower c then c - 32 else c)"

definition ci_eq :: "nat \<Rightarrow> nat \<Rightarrow> bool" where
  "ci_eq c x \<longleftrightarrow> canon x = canon c"

section \<open>Regular expressions\<close>

text \<open>
  The fragment of ECMAScript patterns that the source uses: classes of code units,
  sequence, alternation, greedy and lazy repetition of a class (every \<open>*\<close>, \<open>+\<close> and
  \<open>{2,}\<close> of the source stands after a class), one capturing group, and the assertions
  \<open>^\<close>, \<open>$\<close> and \<open>\b\<close> (no pattern has the flag \<open>m\<close>).
\<close>

datatype re =
    Eps
  | Cls "nat \<Rightarrow> bool"
  | Seq re re
  | Alt re re
  | Star "nat \<Rightarrow> bool"
  | StarLazy "nat \<Rightarrow> bool"
  | Grp re
  | Bol
  | Eol
  | WordB

text \<open>
  A matcher state: the capturing group so far (the text from where the group began and
  the text from where it ended), the code unit before the current position (\<open>None\<close> at
  index 0) and the text from the current position on.
\<close>

type_synonym mstate = "(jsstring \<times> jsstring) option \<times> nat option \<times> jsstring"

text \<open>
  Repetition of a class as in the \<open>RepeatMatcher\<close> of ECMAScript: the greedy form tries
  one more code unit before the continuation, the lazy form the continuation first.
\<close>

fun star_greedy :: "(nat \<Rightarrow> bool) \<Rightarrow> (mstate \<Rightarrow> mstate option) \<Rightarrow> mstate \<Rightarrow> mstate option" where
  "star_greedy P k (cap, prev, []) = k (cap, prev, [])"
| "star_greedy P k (cap, prev, c # cs) =
     (if P c then
        (case star_greedy P k (cap, Some c, cs) of
           Some r \<Rightarrow> Some r
         | None \<Rightarrow> k (cap, prev, c # cs))
      else k (cap, prev, c # cs))"

fun star_lazy :: "(nat \<Rightarrow> bool) \<Rightarrow> (mstate \<Rightarrow> mstate option) \<Rightarrow> mstate \<Rightarrow> mstate option" where
  "star_lazy P k (cap, prev, []) = k (cap, prev, [])"
| "star_lazy P k (cap, prev, c # cs) =
     (case k (cap, prev, c # cs) of
        Some r \<Rightarrow> Some r
      | None \<Rightarrow> if P c then star_lazy P k (cap, Some c, cs) else None)"

text \<open>The end of the capturing group: the group is the text between \<open>s0\<close> and here.\<close>

fun grp_close :: "jsstring \<Rightarrow> (mstate \<Rightarrow> mstate option) \<Rightarrow> mstate \<Rightarrow> mstate option" where
  "grp_close s0 k (cap, prev, s) = k (Some (s0, s), prev, s)"

definition word_before :: "nat option \<Rightarrow> bool" where
  "word_before prev = (case prev of None \<Rightarrow> False | Some c \<Rightarrow> is_word c)"

definition word_after :: "jsstring \<Rightarrow> bool" where
  "word_after s = (case s of [] \<Rightarrow> False | c # _ \<Rightarrow> is_word c)"

text \<open>
  The backtracking matcher, in the continuation style of the ECMAScript
  specification: \<open>mk r k st\<close> matches \<open>r\<close> at \<open>st\<close> and hands every state it can
  end in to the continuation \<open>k\<close>, in the order of the priorities; the first success is
  the result.
\<close>

fun mk :: "re \<Rightarrow> (mstate \<Rightarrow> mstate option) \<Rightarrow> mstate \<Rightarrow> mstate option" where
  "mk Eps k st = k st"
| "mk (Cls P) k (cap, prev, []) = None"
| "mk (Cls P) k (cap, prev, c # cs) = (if P c then k (cap, Some c, cs) else None)"
| "mk (Seq a b) k st = mk a (mk b k) st"
| "mk (Alt a b) k st = (case mk a k st of Some r \<Rightarrow> Some r | None \<Rightarrow> mk b k st)"
| "mk (Star P) k st = star_greedy P k st"
| "mk (StarLazy P) k st = star_lazy P k st"
| "mk (Grp a) k (cap, prev, s) = mk a (grp_close s k) (cap, prev, s)"
| "mk Bol k (cap, prev, s) = (if prev = None then k (cap, prev, s) else None)"
| "mk Eol k (cap, prev, s) = (if s = [] then k (cap, prev, s) else None)"
| "mk WordB k (cap, prev, s) =
     (if word_before prev \<noteq> word_after s then k (cap, prev, s) else None)"

text \<open>Pattern shorthands: a literal, a literal under the flag \<open>i\<close>, \<open>P+\<close>, \<open>r?\<close>.\<close>

definition chr :: "nat \<Rightarrow> re" where
  "chr c = Cls (\<lambda>x. x = c)"

definition chri :: "nat \<Rightarrow> re" where
  "chri c = Cls (ci_eq c)"

definition seqs :: "re list \<Rightarrow> re" where
  "seqs rs = foldr Seq rs Eps"

definition str :: "jsstring \<Rightarrow> re" where
  "str w = seqs (map chr w)"

definition stri :: "jsstring \<Rightarrow> re" where
  "stri w = seqs (map chri w)"

definition Plus :: "(nat \<Rightarrow> bool) \<Rightarrow> re" where
  "Plus P = Seq (Cls P) (Star P)"

definition Opt :: "re \<Rightarrow> re" where
  "Opt r = Alt r Eps"

text \<open>
  The result of a successful match: the text before the match, the matched text, the
  text of the capturing group (\<open>None\<close> when the group took no part), the code unit
  before the rest, and the rest.
\<close>

record rmatch =
  m_pre :: jsstring
  m_text :: jsstring
  m_cap :: "jsstring option"
  m_prev :: "nat option"
  m_rest :: jsstring

fun between :: "jsstring \<times> jsstring \<Rightarrow> jsstring" where
  "between (a, b) = take (length a - length b) a"

fun mk_match :: "jsstring \<Rightarrow> jsstring \<Rightarrow> mstate \<Rightarrow> rmatch" where
  "mk_match rpre s (cap, prev, rest) =
     \<lparr> m_pre = rev rpre, m_text = between (s, rest), m_cap = map_option between cap,
       m_prev = prev, m_rest = rest \<rparr>"

text \<open>
  \<open>RegExp.prototype.exec\<close> from a given index: the pattern is tried at each index from
  there up to and including the end of the text. \<open>rpre\<close> is the text walked over so
  far, last code unit first.
\<close>

fun search_from :: "re \<Rightarrow> jsstring \<Rightarrow> nat option \<Rightarrow> jsstring \<Rightarrow> rmatch option" where
  "search_from r rpre prev [] = map_option (mk_match rpre []) (mk r Some (None, prev, []))"
| "search_from r rpre prev (c # cs) =
     (case mk r Some (None, prev, c # cs) of
        Some st \<Rightarrow> Some (mk_match rpre (c # cs) st)
      | None \<Rightarrow> search_from r (c # rpre) (Some c) cs)"

definition search :: "re \<Rightarrow> jsstring \<Rightarrow> rmatch option" where
  "search r s = search_from r [] None s"

text \<open>\<open>re.test(s)\<close>.\<close>

definition test :: "re \<Rightarrow> jsstring \<Rightarrow> bool" where
  "test r s = (search r s \<noteq> None)"

text \<open>
  \<open>s.replace(re, f)\<close> for a pattern without the flag \<open>g\<close>: the first match is
  replaced by what \<open>f\<close> gives for it.
\<close>

definition replace :: "re \<Rightarrow> (rmatch \<Rightarrow> jsstring) \<Rightarrow> jsstring \<Rightarrow> jsstring" where
  "replace r f s =
     (case search r s of
        None \<Rightarrow> s
      | Some m \<Rightarrow> m_pre m @ f m @ m_rest m)"

subsection \<open>Where a match ends\<close>

text \<open>Every state the matcher ends in has a rest that is a suffix of the rest it began with.\<close>

definition shrinks :: "(mstate \<Rightarrow> mstate option) \<Rightarrow> mstate \<Rightarrow> mstate \<Rightarrow> bool" where
  "shrinks k st r \<longleftrightarrow>
     (\<exists>st'. k st' = Some r \<and> (\<exists>u. snd (snd st) = u @ snd (snd st')))"

lemma shrinksI: "k st' = Some r \<Longrightarrow> snd (snd st) = u @ snd (snd st') \<Longrightarrow> shrinks k st r"
  unfolding shrinks_def by blast

lemma shrinks_Cons:
  "shrinks k (cap', Some c, cs) r \<Longrightarrow> shrinks k (cap, prev, c # cs) r"
  unfolding shrinks_def by (metis append_Cons snd_conv)

lemma star_greedy_shrinks:
  "star_greedy P k (cap, prev, s) = Some r \<Longrightarrow> shrinks k (cap, prev, s) r"
proof (induction s arbitrary: prev)
  case Nil
  then show ?case by (auto intro: shrinksI[where u="[]"])
next
  case (Cons c cs)
  show ?case
  proof (cases "P c \<and> star_greedy P k (cap, Some c, cs) \<noteq> None")
    case True
    then have "star_greedy P k (cap, Some c, cs) = Some r"
      using Cons.prems by auto
    then show ?thesis using Cons.IH shrinks_Cons by blast
  next
    case False
    then have "k (cap, prev, c # cs) = Some r"
      using Cons.prems by (auto split: if_splits option.splits)
    then show ?thesis by (auto intro: shrinksI[where u="[]"])
  qed
qed

lemma star_lazy_shrinks:
  "star_lazy P k (cap, prev, s) = Some r \<Longrightarrow> shrinks k (cap, prev, s) r"
proof (induction s arbitrary: prev)
  case Nil
  then show ?case by (auto intro: shrinksI[where u="[]"])
next
  case (Cons c cs)
  show ?case
  proof (cases "k (cap, prev, c # cs)")
    case (Some a)
    then show ?thesis using Cons.prems by (auto intro: shrinksI[where u="[]"])
  next
    case None
    then have "star_lazy P k (cap, Some c, cs) = Some r"
      using Cons.prems by (auto split: if_splits)
    then show ?thesis using Cons.IH shrinks_Cons by blast
  qed
qed

lemma shrinks_trans:
  assumes "shrinks k' st r" and "\<And>st'. k' st' = Some r \<Longrightarrow> shrinks k st' r"
  shows "shrinks k st r"
proof -
  from assms(1) obtain st' u where a: "k' st' = Some r" "snd (snd st) = u @ snd (snd st')"
    unfolding shrinks_def by blast
  from assms(2)[OF a(1)] obtain st'' v where b: "k st'' = Some r" "snd (snd st') = v @ snd (snd st'')"
    unfolding shrinks_def by blast
  show ?thesis
    using a(2) b by (auto intro: shrinksI[where u="u @ v"])
qed

lemma mk_shrinks: "mk r k st = Some res \<Longrightarrow> shrinks k st res"
proof (induction r k st arbitrary: res rule: mk.induct)
  case (1 k st)
  then show ?case by (auto intro: shrinksI[where u="[]"])
next
  case (2 P k cap prev)
  then show ?case by simp
next
  case (3 P k cap prev c cs)
  then show ?case by (auto split: if_splits intro: shrinksI[where u="[c]"])
next
  case (4 a b k st)
  show ?case
  proof (rule shrinks_trans)
    show "shrinks (mk b k) st res" using 4 by simp
    show "\<And>st'. mk b k st' = Some res \<Longrightarrow> shrinks k st' res" using 4 by simp
  qed
next
  case (5 a b k st)
  then show ?case by (auto split: option.splits)
next
  case (6 P k st)
  then show ?case by (cases st) (auto dest: star_greedy_shrinks)
next
  case (7 P k st)
  then show ?case by (cases st) (auto dest: star_lazy_shrinks)
next
  case (8 a k cap prev s)
  show ?case
  proof (rule shrinks_trans)
    show "shrinks (grp_close s k) (cap, prev, s) res" using 8 by simp
    show "\<And>st'. grp_close s k st' = Some res \<Longrightarrow> shrinks k st' res"
    proof -
      fix st' :: mstate
      assume h: "grp_close s k st' = Some res"
      obtain c' p' s' where st': "st' = (c', p', s')" by (cases st')
      show "shrinks k st' res"
        using h unfolding st' by (auto intro: shrinksI[where u="[]"])
    qed
  qed
next
  case (9 k cap prev s)
  then show ?case by (auto split: if_splits intro: shrinksI[where u="[]"])
next
  case (10 k cap prev s)
  then show ?case by (auto split: if_splits intro: shrinksI[where u="[]"])
next
  case (11 k cap prev s)
  then show ?case by (auto split: if_splits intro: shrinksI[where u="[]"])
qed

lemma mk_Some_suffix:
  assumes "mk r Some (None, prev, s) = Some (cap, prev', rest)"
  shows "\<exists>u. s = u @ rest"
  using mk_shrinks[OF assms] unfolding shrinks_def by auto

lemma search_from_parts:
  "search_from r rpre prev s = Some m \<Longrightarrow> m_pre m @ m_text m @ m_rest m = rev rpre @ s"
proof (induction s arbitrary: rpre prev)
  case Nil
  then obtain cap p' rest where st: "mk r Some (None, prev, []) = Some (cap, p', rest)"
    and m: "m = mk_match rpre [] (cap, p', rest)"
    by (cases "mk r Some (None, prev, [])") auto
  from mk_Some_suffix[OF st] have "rest = []" by simp
  then show ?case using m by simp
next
  case (Cons c cs)
  show ?case
  proof (cases "mk r Some (None, prev, c # cs)")
    case None
    then have "search_from r (c # rpre) (Some c) cs = Some m" using Cons.prems by simp
    from Cons.IH[OF this] show ?thesis by simp
  next
    case (Some st)
    obtain cap p' rest where st: "st = (cap, p', rest)" by (cases st)
    from mk_Some_suffix[OF Some[unfolded st]] obtain u where u: "c # cs = u @ rest" by blast
    have m: "m = mk_match rpre (c # cs) (cap, p', rest)"
      using Cons.prems Some st by simp
    have "take (length (c # cs) - length rest) (c # cs) = u"
      unfolding u by simp
    then show ?thesis using m u by simp
  qed
qed

lemma search_from_rest_le:
  assumes "search_from r rpre prev s = Some m"
  shows "length (m_rest m) \<le> length s"
    and "m_text m \<noteq> [] \<Longrightarrow> length (m_rest m) < length s"
proof -
  have "length (m_pre m) + length (m_text m) + length (m_rest m) = length rpre + length s"
    using arg_cong[OF search_from_parts[OF assms], of length] by simp
  moreover have "length rpre \<le> length (m_pre m)"
    using assms
  proof (induction s arbitrary: rpre prev)
    case Nil
    then show ?case by (cases "mk r Some (None, prev, [])") auto
  next
    case (Cons c cs)
    show ?case
    proof (cases "mk r Some (None, prev, c # cs)")
      case None
      then have "search_from r (c # rpre) (Some c) cs = Some m" using Cons.prems by simp
      from Cons.IH[OF this] show ?thesis by simp
    next
      case (Some st)
      then show ?thesis using Cons.prems by (cases st) auto
    qed
  qed
  ultimately have le: "length (m_text m) + length (m_rest m) \<le> length s"
    by arith
  then show "length (m_rest m) \<le> length s"
    by arith
  show "length (m_rest m) < length s" if "m_text m \<noteq> []"
  proof -
    have "0 < length (m_text m)" using that by simp
    with le show ?thesis by arith
  qed
qed

subsection \<open>Replacing and splitting\<close>

text \<open>
  \<open>s.replace(re, f)\<close> for a pattern with the flag \<open>g\<close>: every match is replaced, the
  search going on behind the match; behind an empty match one code unit is copied
  (\<open>AdvanceStringIndex\<close>). The argument \<open>s\<close> is the text from the current index on.
\<close>

function replace_all :: "re \<Rightarrow> (rmatch \<Rightarrow> jsstring) \<Rightarrow> nat option \<Rightarrow> jsstring \<Rightarrow> jsstring" where
  "replace_all r f prev s =
     (case search_from r [] prev s of
        None \<Rightarrow> s
      | Some m \<Rightarrow>
          m_pre m @ f m @
          (if m_text m = [] then
             (case m_rest m of
                [] \<Rightarrow> []
              | c # cs \<Rightarrow> c # replace_all r f (Some c) cs)
           else replace_all r f (m_prev m) (m_rest m)))"
  by pat_completeness auto
termination
proof (relation "measure (\<lambda>(r, f, prev, s). length s)", goal_cases)
  case 1
  show ?case by simp
next
  case (2 r f prev s m c cs)
  then show ?case using search_from_rest_le(1)[of r "[]" prev s m] by simp
next
  case (3 r f prev s m)
  then show ?case using search_from_rest_le(2)[of r "[]" prev s m] by simp
qed

declare replace_all.simps [simp del]

definition replace_g :: "re \<Rightarrow> (rmatch \<Rightarrow> jsstring) \<Rightarrow> jsstring \<Rightarrow> jsstring" where
  "replace_g r f s = replace_all r f None s"

text \<open>
  \<open>s.split(re)\<close>, as in \<open>RegExp.prototype[@@split]\<close>: the pattern is tried at each index
  \<open>q\<close> of a text that is not empty, and a match that ends where the current piece
  begins is passed over. \<open>racc\<close> is the current piece, last code unit first.
\<close>

function split_loop :: "re \<Rightarrow> jsstring \<Rightarrow> nat option \<Rightarrow> jsstring \<Rightarrow> jsstring list" where
  "split_loop r racc prev [] = [rev racc]"
| "split_loop r racc prev (c # cs) =
     (case mk r Some (None, prev, c # cs) of
        None \<Rightarrow> split_loop r (c # racc) (Some c) cs
      | Some (cap, prev', rest) \<Rightarrow>
          if length rest = length (c # cs) \<and> racc = []
          then split_loop r (c # racc) (Some c) cs
          else rev racc # split_loop r [] prev' rest)"
  by pat_completeness auto
termination
proof (relation "measure (\<lambda>(r, racc, prev, s). 2 * length s + (if racc = [] then 0 else 1))",
       goal_cases)
  case 1
  show ?case by simp
next
  case (2 r racc prev c cs)
  then show ?case by simp
next
  case (3 r racc prev c cs x2 cap y prev' rest)
  then show ?case by simp
next
  case (4 r racc prev c cs x2 cap y prev' rest)
  from mk_Some_suffix[of r prev "c # cs" cap prev' rest] 4
  obtain u where u: "c # cs = u @ rest" by auto
  then have "length rest \<le> length (c # cs)"
    using arg_cong[OF u, of length] by simp
  with 4 show ?case by auto
qed

declare split_loop.simps [simp del]

definition split_re :: "re \<Rightarrow> jsstring \<Rightarrow> jsstring list" where
  "split_re r s =
     (if s = [] then (case mk r Some (None, None, []) of None \<Rightarrow> [[]] | Some _ \<Rightarrow> [])
      else split_loop r [] None s)"

text \<open>\<open>s.split(sep)\<close> for a separator of one code unit.\<close>

fun split_chr_from :: "nat \<Rightarrow> jsstring \<Rightarrow> jsstring \<Rightarrow> jsstring list" where
  "split_chr_from sep racc [] = [rev racc]"
| "split_chr_from sep racc (c # cs) =
     (if c = sep then rev racc # split_chr_from sep [] cs
      else split_chr_from sep (c # racc) cs)"

definition split_chr :: "nat \<Rightarrow> jsstring \<Rightarrow> jsstring list" where
  "split_chr sep s = split_chr_from sep [] s"

text \<open>\<open>xs.join(sep)\<close>, \<open>s.trim()\<close>, \<open>s.includes(t)\<close> and \<open>a || b\<close> on strings.\<close>

fun join :: "jsstring \<Rightarrow> jsstring list \<Rightarrow> jsstring" where
  "join sep [] = []"
| "join sep [x] = x"
| "join sep (x # y # ys) = x @ sep @ join sep (y # ys)"

definition trim :: "jsstring \<Rightarrow> jsstring" where
  "trim s = rev (dropWhile is_space (rev (dropWhile is_space s)))"

fun starts_with :: "jsstring \<Rightarrow> jsstring \<Rightarrow> bool" where
  "starts_with s [] = True"
| "starts_with [] (p # ps) = False"
| "starts_with (c # cs) (p # ps) = (c = p \<and> starts_with cs ps)"

fun includes_str :: "jsstring \<Rightarrow> jsstring \<Rightarrow> bool" where
  "includes_str [] t = (t = [])"
| "includes_str (c # cs) t = (starts_with (c # cs) t \<or> includes_str cs t)"

definition or_str :: "jsstring \<Rightarrow> jsstring \<Rightarrow> jsstring" where
  "or_str a b = (if a \<noteq> [] then a else b)"

text \<open>
  The text of the capturing group of a match. In every pattern below whose group is
  read, the group takes part in each match, so the case \<open>None\<close> (\<open>undefined\<close> in the
  source) does not arise.
\<close>

definition group1 :: "rmatch \<Rightarrow> jsstring" where
  "group1 m = (case m_cap m of None \<Rightarrow> [] | Some t \<Rightarrow> t)"

definition empty_str :: "rmatch \<Rightarrow> jsstring" where
  "empty_str m = []"

subsection \<open>Evaluation\<close>

text \<open>
  The equations above, restated with one rule per case, so that the simplifier evaluates
  a match on a given text by rewriting alone. The auxiliary functions name the case
  distinctions on an intermediate result.
\<close>

fun alt_try :: "mstate option \<Rightarrow> re \<Rightarrow> (mstate \<Rightarrow> mstate option) \<Rightarrow> mstate \<Rightarrow> mstate option" where
  "alt_try (Some r) b k st = Some r"
| "alt_try None b k st = mk b k st"

fun greedy_back :: "mstate option \<Rightarrow> (mstate \<Rightarrow> mstate option) \<Rightarrow> mstate \<Rightarrow> mstate option" where
  "greedy_back (Some r) k st = Some r"
| "greedy_back None k st = k st"

definition lazy_next :: "mstate option \<Rightarrow> (nat \<Rightarrow> bool) \<Rightarrow> (mstate \<Rightarrow> mstate option)
     \<Rightarrow> (jsstring \<times> jsstring) option \<Rightarrow> nat \<Rightarrow> jsstring \<Rightarrow> mstate option" where
  "lazy_next x P k cap c cs =
     (case x of Some r \<Rightarrow> Some r | None \<Rightarrow> if P c then star_lazy P k (cap, Some c, cs) else None)"

definition search_next :: "mstate option \<Rightarrow> re \<Rightarrow> jsstring \<Rightarrow> nat \<Rightarrow> jsstring \<Rightarrow> rmatch option" where
  "search_next x r rpre c cs =
     (case x of Some st \<Rightarrow> Some (mk_match rpre (c # cs) st)
      | None \<Rightarrow> search_from r (c # rpre) (Some c) cs)"

fun repl_cont :: "jsstring \<Rightarrow> jsstring \<Rightarrow> nat option \<Rightarrow> re \<Rightarrow> (rmatch \<Rightarrow> jsstring) \<Rightarrow> jsstring" where
  "repl_cont [] [] p r f = []"
| "repl_cont [] (c # cs) p r f = c # replace_all r f (Some c) cs"
| "repl_cont (t # ts) rest p r f = replace_all r f p rest"

fun repl_next :: "rmatch option \<Rightarrow> re \<Rightarrow> (rmatch \<Rightarrow> jsstring) \<Rightarrow> jsstring \<Rightarrow> jsstring" where
  "repl_next None r f s = s"
| "repl_next (Some m) r f s = m_pre m @ f m @ repl_cont (m_text m) (m_rest m) (m_prev m) r f"

fun split_dec :: "bool \<Rightarrow> re \<Rightarrow> jsstring \<Rightarrow> nat \<Rightarrow> jsstring \<Rightarrow> nat option \<Rightarrow> jsstring
     \<Rightarrow> jsstring list" where
  "split_dec True r racc c cs prev' rest = split_loop r (c # racc) (Some c) cs"
| "split_dec False r racc c cs prev' rest = rev racc # split_loop r [] prev' rest"

fun split_next :: "mstate option \<Rightarrow> re \<Rightarrow> jsstring \<Rightarrow> nat \<Rightarrow> jsstring \<Rightarrow> jsstring list" where
  "split_next None r racc c cs = split_loop r (c # racc) (Some c) cs"
| "split_next (Some (cap, prev', rest)) r racc c cs =
     split_dec (length rest = length (c # cs) \<and> racc = []) r racc c cs prev' rest"

lemma ev_mk:
  "mk Eps k st = k st"
  "mk (Cls P) k (cap, prev, []) = None"
  "P c \<Longrightarrow> mk (Cls P) k (cap, prev, c # cs) = k (cap, Some c, cs)"
  "\<not> P c \<Longrightarrow> mk (Cls P) k (cap, prev, c # cs) = None"
  "mk (Seq a b) k st = mk a (mk b k) st"
  "mk (Alt a b) k st = alt_try (mk a k st) b k st"
  "mk (Star P) k st = star_greedy P k st"
  "mk (StarLazy P) k st = star_lazy P k st"
  "mk (Grp a) k (cap, prev, s) = mk a (grp_close s k) (cap, prev, s)"
  "mk Bol k (cap, None, s) = k (cap, None, s)"
  "mk Bol k (cap, Some p, s) = None"
  "mk Eol k (cap, prev, []) = k (cap, prev, [])"
  "mk Eol k (cap, prev, c # cs) = None"
  by (simp_all split: option.splits)

lemma ev_wordb:
  "mk WordB k (cap, None, []) = None"
  "is_word c \<Longrightarrow> mk WordB k (cap, None, c # cs) = k (cap, None, c # cs)"
  "\<not> is_word c \<Longrightarrow> mk WordB k (cap, None, c # cs) = None"
  "is_word p \<Longrightarrow> mk WordB k (cap, Some p, []) = k (cap, Some p, [])"
  "\<not> is_word p \<Longrightarrow> mk WordB k (cap, Some p, []) = None"
  "is_word p \<noteq> is_word c \<Longrightarrow> mk WordB k (cap, Some p, c # cs) = k (cap, Some p, c # cs)"
  "is_word p = is_word c \<Longrightarrow> mk WordB k (cap, Some p, c # cs) = None"
  by (simp_all add: word_before_def word_after_def)

lemma ev_star:
  "star_greedy P k (cap, prev, []) = k (cap, prev, [])"
  "\<not> P c \<Longrightarrow> star_greedy P k (cap, prev, c # cs) = k (cap, prev, c # cs)"
  "P c \<Longrightarrow> star_greedy P k (cap, prev, c # cs)
            = greedy_back (star_greedy P k (cap, Some c, cs)) k (cap, prev, c # cs)"
  "star_lazy P k (cap, prev, []) = k (cap, prev, [])"
  "star_lazy P k (cap, prev, c # cs) = lazy_next (k (cap, prev, c # cs)) P k cap c cs"
  "lazy_next (Some r) P k cap c cs = Some r"
  "P c \<Longrightarrow> lazy_next None P k cap c cs = star_lazy P k (cap, Some c, cs)"
  "\<not> P c \<Longrightarrow> lazy_next None P k cap c cs = None"
  by (simp_all add: lazy_next_def split: option.splits)

lemma ev_search:
  "search_from r rpre prev [] = map_option (mk_match rpre []) (mk r Some (None, prev, []))"
  "search_from r rpre prev (c # cs) = search_next (mk r Some (None, prev, c # cs)) r rpre c cs"
  "search_next (Some st) r rpre c cs = Some (mk_match rpre (c # cs) st)"
  "search_next None r rpre c cs = search_from r (c # rpre) (Some c) cs"
  by (simp_all add: search_next_def)

lemma ev_replace_all:
  "replace_all r f prev s = repl_next (search_from r [] prev s) r f s"
proof (cases "search_from r [] prev s")
  case None
  then show ?thesis by (simp add: replace_all.simps)
next
  case (Some m)
  show ?thesis
  proof (cases "m_text m")
    case Nil
    then show ?thesis using Some
      by (cases "m_rest m") (simp_all add: replace_all.simps[of r f prev s])
  next
    case (Cons t ts)
    then show ?thesis using Some by (simp add: replace_all.simps[of r f prev s])
  qed
qed

lemma ev_split:
  "split_loop r racc prev [] = [rev racc]"
  "split_loop r racc prev (c # cs) = split_next (mk r Some (None, prev, c # cs)) r racc c cs"
proof -
  show "split_loop r racc prev [] = [rev racc]" by (simp add: split_loop.simps)
  show "split_loop r racc prev (c # cs) = split_next (mk r Some (None, prev, c # cs)) r racc c cs"
  proof (cases "mk r Some (None, prev, c # cs)")
    case None
    then show ?thesis by (simp add: split_loop.simps)
  next
    case (Some st)
    obtain cap p' rest where st: "st = (cap, p', rest)" by (cases st)
    show ?thesis
    proof (cases "length rest = length (c # cs) \<and> racc = []")
      case True
      then show ?thesis using Some st by (simp add: split_loop.simps)
    next
      case False
      then have "split_dec (length rest = length (c # cs) \<and> racc = []) r racc c cs p' rest
                   = rev racc # split_loop r [] p' rest"
        by (simp only: split_dec.simps)
      then show ?thesis using Some st False by (auto simp add: split_loop.simps)
    qed
  qed
qed

declare mk.simps [simp del] star_greedy.simps [simp del] star_lazy.simps [simp del]
  search_from.simps [simp del]

lemmas ev_engine = ev_mk ev_wordb ev_star ev_search ev_replace_all ev_split
  js_def seqs_def stri_def chri_def chr_def str_def Plus_def Opt_def search_def test_def
  replace_def replace_g_def split_re_def split_chr_def trim_def or_str_def
  canon_def ci_eq_def is_space_def is_word_def is_lower_def is_upper_def is_digit_def
  lower_cu_def upper_cu_def toLowerCase_def toUpperCase_def

section \<open>Normalization\<close>

text \<open>
  \<^verbatim>\<open>function normDOI(s){ if(!s) return '';
    return String(s).trim().replace(/^https?:\/\/(dx\.)?doi\.org\//i,'')
      .replace(/^\s*doi:\s*/i,'').replace(/[.,;]\s*$/,'').toLowerCase(); }\<close>
\<close>

definition re_doi_url :: re where
  "re_doi_url = seqs [Bol, stri (js ''http''), Opt (chri (of_char CHR ''s'')), stri (js ''://''),
                      Opt (Grp (stri (js ''dx.''))), stri (js ''doi.org/'')]"

definition re_doi_label :: re where
  "re_doi_label = seqs [Bol, Star is_space, stri (js ''doi:''), Star is_space]"

definition re_trail_punct :: re where
  "re_trail_punct = seqs [Cls (\<lambda>c. c = c_dot \<or> c = c_comma \<or> c = c_semi), Star is_space, Eol]"

definition normDOI :: "jsstring \<Rightarrow> jsstring" where
  "normDOI s =
     (if s = [] then []
      else toLowerCase
             (replace re_trail_punct empty_str
               (replace re_doi_label empty_str
                 (replace re_doi_url empty_str (trim s)))))"

text \<open>
  \<^verbatim>\<open>function normalizeTitle(s){ if(!s) return '';
    return s.replace(/[{}]/g,'').toLowerCase().replace(/[^a-z0-9]+/g,' ').trim()
            .replace(/\s+/g,' '); }\<close>
\<close>

definition re_braces :: re where
  "re_braces = Cls (\<lambda>c. c = c_lbrace \<or> c = c_rbrace)"

definition re_non_alnum :: re where
  "re_non_alnum = Plus (\<lambda>c. \<not> (is_lower c \<or> is_digit c))"

definition re_spaces :: re where
  "re_spaces = Plus is_space"

definition one_space :: "rmatch \<Rightarrow> jsstring" where
  "one_space m = [c_space]"

definition normalizeTitle :: "jsstring \<Rightarrow> jsstring" where
  "normalizeTitle s =
     (if s = [] then []
      else replace_g re_spaces one_space
             (trim (replace_g re_non_alnum one_space
                      (toLowerCase (replace_g re_braces empty_str s)))))"

section \<open>Field extractor\<close>

text \<open>
  \<^verbatim>\<open>function getBibField(entry, name){
    const reBrace = new RegExp('\\b'+name+'\\s*=\\s*\\{([\\s\\S]*?)\\}', 'i');
    const m1 = entry.match(reBrace);
    if(m1){ return m1[1].trim().replace(/,\s*$/,''); }
    const reQuote = new RegExp('\\b'+name+'\\s*=\\s*"([\\s\\S]*?)"', 'i');
    const m2 = entry.match(reQuote);
    if(m2){ return m2[1].trim().replace(/,\s*$/,''); }
    const reBare = new RegExp('\\b'+name+'\\s*=\\s*([^,\\n]+)\\s*,', 'i');
    const m3 = entry.match(reBare);
    if(m3){ return m3[1].trim(); }
    return ''; }\<close>
  The name becomes part of the pattern. The model is of the names whose code units stand
  for themselves there, as those of every name that the source passes do (letters, \<open>_\<close>
  and \<open>-\<close>).
\<close>

definition reBrace :: "jsstring \<Rightarrow> re" where
  "reBrace name = seqs [WordB, stri name, Star is_space, chri c_eq, Star is_space,
                        chri c_lbrace, Grp (StarLazy (\<lambda>c. True)), chri c_rbrace]"

definition reQuote :: "jsstring \<Rightarrow> re" where
  "reQuote name = seqs [WordB, stri name, Star is_space, chri c_eq, Star is_space,
                        chri c_dquote, Grp (StarLazy (\<lambda>c. True)), chri c_dquote]"

definition reBare :: "jsstring \<Rightarrow> re" where
  "reBare name = seqs [WordB, stri name, Star is_space, chri c_eq, Star is_space,
                       Grp (Plus (\<lambda>c. c \<noteq> c_comma \<and> c \<noteq> c_newline)), Star is_space,
                       chri c_comma]"

definition re_trail_comma :: re where
  "re_trail_comma = seqs [chr c_comma, Star is_space, Eol]"

definition getBibField :: "jsstring \<Rightarrow> jsstring \<Rightarrow> jsstring" where
  "getBibField entry name =
     (case search (reBrace name) entry of
        Some m1 \<Rightarrow> replace re_trail_comma empty_str (trim (group1 m1))
      | None \<Rightarrow>
         (case search (reQuote name) entry of
            Some m2 \<Rightarrow> replace re_trail_comma empty_str (trim (group1 m2))
          | None \<Rightarrow>
             (case search (reBare name) entry of
                Some m3 \<Rightarrow> trim (group1 m3)
              | None \<Rightarrow> [])))"

section \<open>Entry splitter\<close>

text \<open>
  The inner loop of \<open>splitBibEntries\<close>:
  \<^verbatim>\<open>while(j < n && depth > 0){ const ch = text[j++];
     if(ch === '{') depth++; else if(ch === '}') depth--; }\<close>
  The argument is the text from index \<open>j\<close> on; the result is the slice the loop walks over
  and the text from the final \<open>j\<close> on.
\<close>

fun scanBraces :: "nat \<Rightarrow> jsstring \<Rightarrow> jsstring \<times> jsstring" where
  "scanBraces depth [] = ([], [])"
| "scanBraces depth (c # cs) =
     (if depth > 0 then
        (let depth' = (if c = c_lbrace then depth + 1
                       else if c = c_rbrace then depth - 1 else depth);
             r = scanBraces depth' cs
         in (c # fst r, snd r))
      else ([], c # cs))"

lemma scanBraces_length: "length (snd (scanBraces d s)) \<le> length s"
  by (induction s arbitrary: d) (auto simp: Let_def le_SucI)

lemma scanBraces_append: "fst (scanBraces d s) @ snd (scanBraces d s) = s"
  by (induction s arbitrary: d) (auto simp: Let_def)

text \<open>
  The outer loop of \<open>splitBibEntries\<close>. The argument of \<open>splitFrom\<close> is the text from index
  \<open>i\<close> on: \<open>text.indexOf('@', i)\<close> drops the code units before the first \<open>@\<close>,
  \<open>text.indexOf('{', at)\<close> walks to the first opening brace from there, and both
  \<open>break\<close>s end the loop with the entries collected so far.
\<close>

function splitFrom :: "jsstring \<Rightarrow> jsstring list" where
  "splitFrom s =
     (case dropWhile (\<lambda>c. c \<noteq> c_at) s of
        [] \<Rightarrow> []
      | a # as \<Rightarrow>
         (case dropWhile (\<lambda>c. c \<noteq> c_lbrace) (a # as) of
            [] \<Rightarrow> []
          | b # bs \<Rightarrow>
              (takeWhile (\<lambda>c. c \<noteq> c_lbrace) (a # as) @ b # fst (scanBraces 1 bs))
              # splitFrom (snd (scanBraces 1 bs))))"
  by pat_completeness auto
termination
proof (relation "measure length", goal_cases)
  case 1
  show ?case by simp
next
  case (2 s a as b bs)
  have "length (snd (scanBraces 1 bs)) \<le> length bs"
    by (rule scanBraces_length)
  moreover have "length (b # bs) \<le> length (a # as)"
    using 2(2) length_dropWhile_le[of "\<lambda>c. c \<noteq> c_lbrace" "a # as"] by simp
  moreover have "length (a # as) \<le> length s"
    using 2(1) length_dropWhile_le[of "\<lambda>c. c \<noteq> c_at" s] by simp
  ultimately show ?case by simp
qed

declare splitFrom.simps [simp del]

text \<open>The inner loop, one rule per case, for evaluation.\<close>

definition cons_fst :: "nat \<Rightarrow> jsstring \<times> jsstring \<Rightarrow> jsstring \<times> jsstring" where
  "cons_fst c r = (c # fst r, snd r)"

lemma ev_scanBraces:
  "scanBraces d [] = ([], [])"
  "scanBraces 0 (c # cs) = ([], c # cs)"
  "0 < d \<Longrightarrow> scanBraces d (c # cs)
     = cons_fst c (scanBraces (if c = c_lbrace then d + 1 else if c = c_rbrace then d - 1 else d) cs)"
  "cons_fst c (a, b) = (c # a, b)"
  by (simp_all add: cons_fst_def Let_def)

definition splitBibEntries :: "jsstring \<Rightarrow> jsstring list" where
  "splitBibEntries text = splitFrom text"

section \<open>Bibliography index\<close>

text \<open>
  \<open>BIB_INDEX\<close> is \<open>{entries, byDOI, byTitle}\<close>. A JavaScript \<open>Map\<close> keeps its keys in
  the order of their first insertion and \<open>set\<close> on a key it holds replaces the value in
  place: an association list under \<open>AList.update\<close>.
\<close>

record bibindex =
  entries :: "jsstring list"
  byDOI :: "(jsstring \<times> jsstring) list"
  byTitle :: "(jsstring \<times> jsstring) list"

definition doi_key :: "jsstring \<Rightarrow> jsstring" where
  "doi_key e = normDOI (or_str (getBibField e (js ''doi'')) (getBibField e (js ''DOI'')))"

definition title_key :: "jsstring \<Rightarrow> jsstring" where
  "title_key e = normalizeTitle (getBibField e (js ''title''))"

text \<open>
  The body of the loop of \<open>buildBibIndex\<close>:
  \<^verbatim>\<open>const doi = normDOI(getBibField(e,'doi') || getBibField(e,'DOI'));
  if(doi) byDOI.set(doi, e);
  const t = normalizeTitle(getBibField(e,'title'));
  if(t) byTitle.set(t, e);\<close>
\<close>

definition index_step ::
  "jsstring \<Rightarrow> (jsstring \<times> jsstring) list \<times> (jsstring \<times> jsstring) list
     \<Rightarrow> (jsstring \<times> jsstring) list \<times> (jsstring \<times> jsstring) list" where
  "index_step e maps =
     (let doi = doi_key e;
          d = (if doi \<noteq> [] then AList.update doi e (fst maps) else fst maps);
          t = title_key e;
          tm = (if t \<noteq> [] then AList.update t e (snd maps) else snd maps)
      in (d, tm))"

text \<open>\<open>buildBibIndex\<close> assigns its result to \<open>BIB_INDEX\<close>; the model returns it.\<close>

definition buildBibIndex :: "jsstring \<Rightarrow> bibindex" where
  "buildBibIndex bib =
     (let es = splitBibEntries bib;
          maps = fold index_step es ([], [])
      in \<lparr> entries = es, byDOI = fst maps, byTitle = snd maps \<rparr>)"


section \<open>Values of the content document\<close>

text \<open>
  A publication record is a value of the content document, which \<open>JSON.parse\<close> reads:
  \<open>null\<close>, a boolean, a number, a string, an array, or an object that has own data
  properties only; a property that a value lacks reads as \<open>undefined\<close>. This code
  observes a number in two ways, by its truth value (\<open>0\<close> and \<open>NaN\<close> are falsy) and by
  its text under \<open>Number::toString\<close>, and a number is given by these two: \<open>2024\<close> is
  \<open>Num True ''2024''\<close> and \<open>0\<close> is \<open>Num False ''0''\<close>.
\<close>

datatype jsval =
    Undefined
  | Null
  | Bool bool
  | Num bool jsstring
  | Str jsstring
  | Arr "jsval list"
  | Obj "(jsstring \<times> jsval) list"

text \<open>Every exception that this code can raise on such a value is a \<open>TypeError\<close>.\<close>

datatype error = TypeError

definition and_then :: "error + 'a \<Rightarrow> ('a \<Rightarrow> error + 'b) \<Rightarrow> error + 'b" where
  "and_then m f = (case m of Inl e \<Rightarrow> Inl e | Inr x \<Rightarrow> f x)"

text \<open>\<open>ToBoolean\<close>, which decides \<open>!v\<close>, \<open>v || w\<close> and \<open>v ? a : b\<close>.\<close>

fun truthy :: "jsval \<Rightarrow> bool" where
  "truthy Undefined = False"
| "truthy Null = False"
| "truthy (Bool b) = b"
| "truthy (Num t s) = t"
| "truthy (Str s) = (s \<noteq> [])"
| "truthy (Arr vs) = True"
| "truthy (Obj ps) = True"

definition or_val :: "jsval \<Rightarrow> jsval \<Rightarrow> jsval" where
  "or_val a b = (if truthy a then a else b)"

text \<open>
  \<open>ToString\<close>, which \<open>String(v)\<close> and the concatenation of \<open>v\<close> with a string apply. An
  array becomes its elements joined by commas, \<open>null\<close> and \<open>undefined\<close> among them as
  the empty string. An object becomes \<open>[object Object]\<close> through the method
  \<open>toString\<close> that it inherits; an own property \<open>toString\<close>, which is not a function in
  a value of the content document, hides that method, and the conversion throws.
\<close>

fun collect :: "(error + 'a) list \<Rightarrow> error + 'a list" where
  "collect [] = Inr []"
| "collect (Inl e # rs) = Inl e"
| "collect (Inr x # rs) = (case collect rs of Inl e \<Rightarrow> Inl e | Inr xs \<Rightarrow> Inr (x # xs))"

fun to_string :: "jsval \<Rightarrow> error + jsstring" where
  "to_string Undefined = Inr (js ''undefined'')"
| "to_string Null = Inr (js ''null'')"
| "to_string (Bool b) = Inr (if b then js ''true'' else js ''false'')"
| "to_string (Num t s) = Inr s"
| "to_string (Str s) = Inr s"
| "to_string (Arr vs) =
     (case collect (map (\<lambda>v. if v = Undefined \<or> v = Null then Inr [] else to_string v) vs) of
        Inl e \<Rightarrow> Inl e
      | Inr ss \<Rightarrow> Inr (join (js '','') ss))"
| "to_string (Obj ps) =
     (if js ''toString'' \<in> set (map fst ps) then Inl TypeError else Inr (js ''[object Object]''))"

text \<open>
  Reading a property: \<open>v.k\<close> throws on \<open>null\<close> and \<open>undefined\<close>, and \<open>v?.k\<close> gives
  \<open>undefined\<close> there. The names that this code reads (\<open>doi\<close>, \<open>title\<close>, \<open>authors\<close>,
  \<open>year\<close>) are not properties of a boolean, a number, a string or an array, nor of the
  prototype of an object.
\<close>

fun get_prop :: "jsval \<Rightarrow> jsstring \<Rightarrow> error + jsval" where
  "get_prop Undefined k = Inl TypeError"
| "get_prop Null k = Inl TypeError"
| "get_prop (Obj ps) k = Inr (case map_of ps k of None \<Rightarrow> Undefined | Some v \<Rightarrow> v)"
| "get_prop v k = Inr Undefined"

definition opt_prop :: "jsval \<Rightarrow> jsstring \<Rightarrow> jsval" where
  "opt_prop v k = (case get_prop v k of Inl e \<Rightarrow> Undefined | Inr x \<Rightarrow> x)"

text \<open>
  \<open>normDOI\<close> and \<open>normalizeTitle\<close> on any value. \<open>normDOI\<close> converts its argument with
  \<open>String(s)\<close>; \<open>normalizeTitle\<close> calls \<open>s.replace\<close>, which is a function only when \<open>s\<close>
  is a string.
\<close>

definition normDOI_of :: "jsval \<Rightarrow> error + jsstring" where
  "normDOI_of v =
     (if \<not> truthy v then Inr [] else and_then (to_string v) (\<lambda>s. Inr (normDOI s)))"

fun normalizeTitle_of :: "jsval \<Rightarrow> error + jsstring" where
  "normalizeTitle_of (Str s) = Inr (normalizeTitle s)"
| "normalizeTitle_of v = (if \<not> truthy v then Inr [] else Inl TypeError)"

section \<open>Entry resolver\<close>

text \<open>\<open>normDOI(pub?.doi || '')\<close> and \<open>normalizeTitle(pub?.title || '')\<close>.\<close>

definition pub_doi :: "jsval \<Rightarrow> error + jsstring" where
  "pub_doi pub = normDOI_of (or_val (opt_prop pub (js ''doi'')) (Str []))"

definition pub_title :: "jsval \<Rightarrow> error + jsstring" where
  "pub_title pub = normalizeTitle_of (or_val (opt_prop pub (js ''title'')) (Str []))"

text \<open>
  The body of the loop over \<open>BIB_INDEX.byTitle.entries()\<close>:
  \<^verbatim>\<open>if(key.includes(t) || t.includes(key)){
    const score = Math.min(key.length, t.length);
    if(score > bestScore){ bestScore = score; best = entry; } }\<close>
\<close>

definition fuzzy_step :: "jsstring \<Rightarrow> jsstring \<times> jsstring \<Rightarrow> jsstring \<times> nat \<Rightarrow> jsstring \<times> nat" where
  "fuzzy_step t ke best =
     (if includes_str (fst ke) t \<or> includes_str t (fst ke) then
        (let score = min (length (fst ke)) (length t)
         in if score > snd best then (snd ke, score) else best)
      else best)"

text \<open>
  \<^verbatim>\<open>function findBibEntryFor(pub){
    if(!BIB_INDEX) return '';
    const doi = normDOI(pub?.doi || '');
    if(doi && BIB_INDEX.byDOI.has(doi)) return BIB_INDEX.byDOI.get(doi);
    const t = normalizeTitle(pub?.title || '');
    if(t && BIB_INDEX.byTitle.has(t)) return BIB_INDEX.byTitle.get(t);
    let best = ''; let bestScore = 0;
    for(const [key, entry] of BIB_INDEX.byTitle.entries()){ if(!t) break; ... }
    return best; }\<close>
  The first argument is the value of the global \<open>BIB_INDEX\<close>, \<open>None\<close> for \<open>null\<close>; the
  result is \<open>Inl TypeError\<close> when the function throws.
\<close>

definition findBibEntryFor :: "bibindex option \<Rightarrow> jsval \<Rightarrow> error + jsstring" where
  "findBibEntryFor bib_index pub =
     (case bib_index of
        None \<Rightarrow> Inr []
      | Some idx \<Rightarrow>
         and_then (pub_doi pub) (\<lambda>doi.
           case (if doi \<noteq> [] then map_of (byDOI idx) doi else None) of
             Some e \<Rightarrow> Inr e
           | None \<Rightarrow>
              and_then (pub_title pub) (\<lambda>t.
                case (if t \<noteq> [] then map_of (byTitle idx) t else None) of
                  Some e \<Rightarrow> Inr e
                | None \<Rightarrow>
                    Inr (if t = [] then []
                         else fst (fold (fuzzy_step t) (byTitle idx) ([], 0))))))"

section \<open>Fallback entry\<close>

text \<open>
  \<^verbatim>\<open>function bibtexFromPub(pub){
    const key = ((pub.year?pub.year+'-':'') + (pub.title||'')
                .toLowerCase().replace(/[^a-z0-9]+/g,'-')
                .replace(/^-+|-+$/g,'')).slice(0,60) || 'citation';
    const doi = normDOI(pub.doi||'');
    const lines = [
      '@article{'+key+',',
      '  title = {'+pub.title+'},',
      pub.authors ? '  author = {'+pub.authors+'},' : null,
      pub.year    ? '  year = {'+pub.year+'},'       : null,
      doi         ? '  doi = {'+doi+'},'             : null,
      '}'
    ].filter(Boolean);
    return lines.join('\n'); }\<close>
\<close>

definition re_hyphen_ends :: re where
  "re_hyphen_ends = Alt (Seq Bol (Plus (\<lambda>c. c = c_hyphen))) (Seq (Plus (\<lambda>c. c = c_hyphen)) Eol)"

definition one_hyphen :: "rmatch \<Rightarrow> jsstring" where
  "one_hyphen m = [c_hyphen]"

text \<open>\<open>v.toLowerCase()\<close>: the method exists on a string only.\<close>

fun toLowerCase_of :: "jsval \<Rightarrow> error + jsstring" where
  "toLowerCase_of (Str s) = Inr (toLowerCase s)"
| "toLowerCase_of v = Inl TypeError"

definition pubKey :: "jsval \<Rightarrow> error + jsstring" where
  "pubKey pub =
     and_then (get_prop pub (js ''year'')) (\<lambda>year.
     and_then (if truthy year then and_then (to_string year) (\<lambda>y. Inr (y @ js ''-''))
               else Inr []) (\<lambda>ypart.
     and_then (get_prop pub (js ''title'')) (\<lambda>title.
     and_then (toLowerCase_of (or_val title (Str []))) (\<lambda>low.
       Inr (or_str
              (take 60
                 (ypart @ replace_g re_hyphen_ends empty_str
                            (replace_g re_non_alnum one_hyphen low)))
              (js ''citation''))))))"

definition field_line :: "jsstring \<Rightarrow> jsstring \<Rightarrow> jsstring" where
  "field_line name v = js ''  '' @ name @ js '' = {'' @ v @ js ''},''"

text \<open>\<open>v ? '  name = {'+v+'},' : null\<close>, with \<open>None\<close> for \<open>null\<close>.\<close>

definition opt_line :: "jsstring \<Rightarrow> jsval \<Rightarrow> error + jsstring option" where
  "opt_line name v =
     (if truthy v then and_then (to_string v) (\<lambda>s. Inr (Some (field_line name s)))
      else Inr None)"

text \<open>The array before \<open>filter(Boolean)\<close>, and \<open>filter(Boolean)\<close> on it.\<close>

definition bibtexLines0 :: "jsval \<Rightarrow> error + jsstring option list" where
  "bibtexLines0 pub =
     and_then (pubKey pub) (\<lambda>key.
     and_then (get_prop pub (js ''doi'')) (\<lambda>d.
     and_then (normDOI_of (or_val d (Str []))) (\<lambda>doi.
     and_then (get_prop pub (js ''title'')) (\<lambda>title.
     and_then (to_string title) (\<lambda>t.
     and_then (get_prop pub (js ''authors'')) (\<lambda>authors.
     and_then (opt_line (js ''author'') authors) (\<lambda>al.
     and_then (get_prop pub (js ''year'')) (\<lambda>year.
     and_then (opt_line (js ''year'') year) (\<lambda>yl.
       Inr [ Some (js ''@article{'' @ key @ js '',''),
             Some (field_line (js ''title'') t),
             al,
             yl,
             (if doi \<noteq> [] then Some (field_line (js ''doi'') doi) else None),
             Some (js ''}'') ])))))))))"

fun filter_Boolean :: "jsstring option list \<Rightarrow> jsstring list" where
  "filter_Boolean [] = []"
| "filter_Boolean (None # xs) = filter_Boolean xs"
| "filter_Boolean (Some s # xs) = (if s = [] then filter_Boolean xs else s # filter_Boolean xs)"

definition bibtexFromPub :: "jsval \<Rightarrow> error + jsstring" where
  "bibtexFromPub pub =
     and_then (bibtexLines0 pub) (\<lambda>ls. Inr (join [c_newline] (filter_Boolean ls)))"

section \<open>APA formatter\<close>

text \<open>
  \<^verbatim>\<open>function splitBibAuthors(s){ if(!s) return [];
    return s.split(/\s+and\s+/i).map(x=>x.replace(/[{}]/g,'').trim()).filter(Boolean); }\<close>
\<close>

definition re_and :: re where
  "re_and = seqs [Plus is_space, stri (js ''and''), Plus is_space]"

definition splitBibAuthors :: "jsstring \<Rightarrow> jsstring list" where
  "splitBibAuthors s =
     (if s = [] then []
      else filter (\<lambda>x. x \<noteq> [])
             (map (\<lambda>x. trim (replace_g re_braces empty_str x)) (split_re re_and s)))"

text \<open>
  \<^verbatim>\<open>function nameToApa(n){
    let last='', rest='';
    if(n.includes(',')){ const [l,r] = n.split(','); last=l.trim(); rest=(r||'').trim(); }
    else{ const parts=n.trim().split(/\s+/); last=parts.pop()||''; rest=parts.join(' '); }
    const initials = rest.split(/\s+/).filter(Boolean).map(chunk=>{
      return chunk.split('-').filter(Boolean).map(p=> (p[0]||'').toUpperCase()+'.').join('-');
    }).join(' ');
    return (last ? (last + (initials?`, ${initials}`:'')) : n).trim(); }\<close>
  \<open>split\<close> gives at least one piece, so \<open>l\<close> is never \<open>undefined\<close>.
\<close>

definition initial :: "jsstring \<Rightarrow> jsstring" where
  "initial p = (case p of [] \<Rightarrow> [] | c # _ \<Rightarrow> upper_cu c) @ js ''.''"

definition initialsOf :: "jsstring \<Rightarrow> jsstring" where
  "initialsOf rest =
     join (js '' '')
       (map (\<lambda>chunk. join (js ''-'')
               (map initial (filter (\<lambda>x. x \<noteq> []) (split_chr c_hyphen chunk))))
          (filter (\<lambda>x. x \<noteq> []) (split_re re_spaces rest)))"

definition lastAndRest :: "jsstring \<Rightarrow> jsstring \<times> jsstring" where
  "lastAndRest n =
     (if c_comma \<in> set n then
        (case split_chr c_comma n of
           [] \<Rightarrow> ([], [])
         | [l] \<Rightarrow> (trim l, [])
         | l # r # _ \<Rightarrow> (trim l, trim r))
      else
        (let parts = split_re re_spaces (trim n)
         in (if parts = [] then [] else last parts, join (js '' '') (butlast parts))))"

definition nameToApa :: "jsstring \<Rightarrow> jsstring" where
  "nameToApa n =
     (let lr = lastAndRest n; initials = initialsOf (snd lr) in
      trim (if fst lr \<noteq> []
            then fst lr @ (if initials \<noteq> [] then js '', '' @ initials else [])
            else n))"

text \<open>
  \<^verbatim>\<open>function formatAuthorsAPA(authors){
    const A = authors.map(nameToApa);
    if(A.length===0) return '';
    if(A.length<=20){
      return A.length===1 ? A[0] : (A.slice(0,-1).join(', ') + ', & ' + A[A.length-1]); }
    return A.slice(0,19).join(', ') + ', ..., ' + A[A.length-1]; }\<close>
  where the three dots stand for the horizontal ellipsis, code unit 8230.
\<close>

definition formatAuthorsAPA :: "jsstring list \<Rightarrow> jsstring" where
  "formatAuthorsAPA authors =
     (let A = map nameToApa authors in
      if length A = 0 then []
      else if length A \<le> 20 then
        (if length A = 1 then last A
         else join (js '', '') (butlast A) @ js '', & '' @ last A)
      else join (js '', '') (take 19 A) @ js '', '' @ [8230] @ js '', '' @ last A)"

text \<open>
  \<^verbatim>\<open>function sentenceCase(t){
    if(!t) return '';
    let s = t.replace(/\s+/g,' ').trim().replace(/^{|}$/g,'');
    const lower = s.toLowerCase();
    let out = lower.replace(/^([a-z])/, c=>c.toUpperCase())
                   .replace(/:\s*([a-z])/g, (m,c)=>': '+c.toUpperCase());
    const tokens=s.split(/\b/), outTokens=out.split(/\b/);
    for(let i=0;i<tokens.length;i++){ if(/[A-Z]{2,}/.test(tokens[i])) outTokens[i]=tokens[i]; }
    return outTokens.join('').replace(/\.\s*$/,''); }\<close>
\<close>

definition re_outer_braces :: re where
  "re_outer_braces = Alt (Seq Bol (chr c_lbrace)) (Seq (chr c_rbrace) Eol)"

definition re_first_lower :: re where
  "re_first_lower = Seq Bol (Grp (Cls is_lower))"

definition re_colon_lower :: re where
  "re_colon_lower = seqs [chr c_colon, Star is_space, Grp (Cls is_lower)]"

definition re_caps2 :: re where
  "re_caps2 = seqs [Cls is_upper, Cls is_upper, Star is_upper]"

definition re_trail_dot :: re where
  "re_trail_dot = seqs [chr c_dot, Star is_space, Eol]"

definition upper_match :: "rmatch \<Rightarrow> jsstring" where
  "upper_match m = toUpperCase (m_text m)"

definition colon_upper :: "rmatch \<Rightarrow> jsstring" where
  "colon_upper m = js '': '' @ toUpperCase (group1 m)"

text \<open>
  The loop over the tokens. An index at which \<open>outTokens\<close> has no element stays or
  becomes a hole of the array, which \<open>join\<close> writes as the empty string.
\<close>

fun keepCaps :: "jsstring list \<Rightarrow> jsstring list \<Rightarrow> jsstring list" where
  "keepCaps [] outTokens = outTokens"
| "keepCaps (t # ts) [] = (if test re_caps2 t then t else []) # keepCaps ts []"
| "keepCaps (t # ts) (out # outs) = (if test re_caps2 t then t else out) # keepCaps ts outs"

definition sentenceCase :: "jsstring \<Rightarrow> jsstring" where
  "sentenceCase t =
     (if t = [] then []
      else
        (let s = replace_g re_outer_braces empty_str (trim (replace_g re_spaces one_space t));
             lower = toLowerCase s;
             out = replace_g re_colon_lower colon_upper (replace re_first_lower upper_match lower);
             tokens = split_re WordB s;
             outTokens = split_re WordB out
         in replace re_trail_dot empty_str (concat (keepCaps tokens outTokens))))"

text \<open>
  \<^verbatim>\<open>function pagesNormalize(p){
    return String(p||'').trim().replace(/\s+/g,'').replace(/--?/g,'-'); }\<close>
  where the replacement of the last call is the en dash.
  \<^verbatim>\<open>function formatDOIUrl(doiRaw){ const d = normDOI(doiRaw);
    return d ? `https://doi.org/${d}` : ''; }\<close>
\<close>

definition re_hyphens :: re where
  "re_hyphens = Seq (chr c_hyphen) (Opt (chr c_hyphen))"

definition en_dash :: "rmatch \<Rightarrow> jsstring" where
  "en_dash m = [c_endash]"

definition pagesNormalize :: "jsstring \<Rightarrow> jsstring" where
  "pagesNormalize p = replace_g re_hyphens en_dash (replace_g re_spaces empty_str (trim p))"

definition formatDOIUrl :: "jsstring \<Rightarrow> jsstring" where
  "formatDOIUrl doiRaw = (let d = normDOI doiRaw in if d \<noteq> [] then js ''https://doi.org/'' @ d else [])"

text \<open>
  The year of \<open>apaFromBibtexEntry\<close>:
  \<^verbatim>\<open>const yearRaw = getBibField(entry,'year') || getBibField(entry,'date');
  const year = (yearRaw||'').match(/\d{4}/)?.[0] || 'n.d.';\<close>
\<close>

definition re_year :: re where
  "re_year = seqs [Cls is_digit, Cls is_digit, Cls is_digit, Cls is_digit]"

definition apaYear :: "jsstring \<Rightarrow> jsstring" where
  "apaYear entry =
     (let yearRaw = or_str (getBibField entry (js ''year'')) (getBibField entry (js ''date''))
      in case search re_year yearRaw of
           None \<Rightarrow> js ''n.d.''
         | Some m \<Rightarrow> or_str (m_text m) (js ''n.d.''))"

text \<open>
  \<^verbatim>\<open>function apaFromBibtexEntry(entry){
    const authors = formatAuthorsAPA(splitBibAuthors(getBibField(entry,'author')));
    ...
    const title   = sentenceCase(getBibField(entry,'title'));
    const journal = getBibField(entry,'journal') || getBibField(entry,'journaltitle');
    const volume  = getBibField(entry,'volume');
    const issue   = getBibField(entry,'number') || getBibField(entry,'issue');
    let   pages   = getBibField(entry,'pages');
    const eLoc    = getBibField(entry,'eid') || getBibField(entry,'art_number')
                    || getBibField(entry,'article-number') || getBibField(entry,'artnum');
    if(!pages && eLoc) pages = eLoc;
    const urlField = getBibField(entry,'url');
    const doiUrl   = formatDOIUrl(getBibField(entry,'doi') || getBibField(entry,'DOI')
                       || (urlField && /doi\.org/i.test(urlField) ? urlField : ''));
    const head = [authors, `(${year}).`, `${title}.`].filter(Boolean).join(' ');
    let tail = '';
    if(journal){
      tail = journal;
      if(volume){ tail += `, ${volume}${issue ? `(${issue})` : ''}`; }
      if(pages){  tail += `, ${pagesNormalize(pages)}`; }
      tail += '.';
    }else{
      const publisher = getBibField(entry,'publisher');
      if(publisher){ tail = `${publisher}.`; }
    }
    let ref = [head, tail].filter(Boolean).join(' ').replace(/\s+/g,' ').trim();
    if(doiUrl){ ref = ref.replace(/\.\s*$/,''); ref += `. ${doiUrl}`; }
    return ref; }\<close>
\<close>

definition re_doi_org :: re where
  "re_doi_org = stri (js ''doi.org'')"

definition apaPages :: "jsstring \<Rightarrow> jsstring" where
  "apaPages entry =
     (let pages = getBibField entry (js ''pages'');
          eLoc = or_str (getBibField entry (js ''eid''))
                   (or_str (getBibField entry (js ''art_number''))
                      (or_str (getBibField entry (js ''article-number''))
                         (getBibField entry (js ''artnum''))))
      in if pages = [] \<and> eLoc \<noteq> [] then eLoc else pages)"

definition apaDoiUrl :: "jsstring \<Rightarrow> jsstring" where
  "apaDoiUrl entry =
     (let urlField = getBibField entry (js ''url'')
      in formatDOIUrl
           (or_str (getBibField entry (js ''doi''))
              (or_str (getBibField entry (js ''DOI''))
                 (if urlField \<noteq> [] \<and> test re_doi_org urlField then urlField else []))))"

definition apaTail :: "jsstring \<Rightarrow> jsstring" where
  "apaTail entry =
     (let journal = or_str (getBibField entry (js ''journal'')) (getBibField entry (js ''journaltitle''));
          volume = getBibField entry (js ''volume'');
          issue = or_str (getBibField entry (js ''number'')) (getBibField entry (js ''issue''));
          pages = apaPages entry
      in if journal \<noteq> [] then
           journal
           @ (if volume \<noteq> []
              then js '', '' @ volume @ (if issue \<noteq> [] then js ''('' @ issue @ js '')'' else [])
              else [])
           @ (if pages \<noteq> [] then js '', '' @ pagesNormalize pages else [])
           @ js ''.''
         else
           (let publisher = getBibField entry (js ''publisher'')
            in if publisher \<noteq> [] then publisher @ js ''.'' else []))"

definition apaFromBibtexEntry :: "jsstring \<Rightarrow> jsstring" where
  "apaFromBibtexEntry entry =
     (let authors = formatAuthorsAPA (splitBibAuthors (getBibField entry (js ''author'')));
          year = apaYear entry;
          title = sentenceCase (getBibField entry (js ''title''));
          doiUrl = apaDoiUrl entry;
          head = join (js '' '')
                   (filter (\<lambda>x. x \<noteq> []) [authors, js ''('' @ year @ js '').'', title @ js ''.'']);
          tail = apaTail entry;
          ref = trim (replace_g re_spaces one_space
                        (join (js '' '') (filter (\<lambda>x. x \<noteq> []) [head, tail])))
      in if doiUrl \<noteq> [] then replace re_trail_dot empty_str ref @ js ''. '' @ doiUrl else ref)"

subsection \<open>Well-formed bibliography texts\<close>

text \<open>
  The words of the specification: an entry is \<open>@type{key, ...}\<close> with balanced braces, and a
  well-formed text is a sequence of such entries with text free of \<open>@\<close> before, between and
  after them. \<open>balanced\<close> is the usual grammar of brace-balanced strings.
\<close>

inductive balanced :: "jsstring \<Rightarrow> bool" where
  bal_Nil: "balanced []"
| bal_Chr: "c \<noteq> c_lbrace \<Longrightarrow> c \<noteq> c_rbrace \<Longrightarrow> balanced s \<Longrightarrow> balanced (c # s)"
| bal_Brc: "balanced s \<Longrightarrow> balanced t \<Longrightarrow> balanced (c_lbrace # s @ c_rbrace # t)"

definition bib_entry :: "jsstring \<Rightarrow> bool" where
  "bib_entry e \<longleftrightarrow>
     (\<exists>pre body. e = c_at # pre @ c_lbrace # body @ [c_rbrace]
        \<and> c_lbrace \<notin> set pre \<and> balanced body)"

text \<open>
  \<open>assemble junk es tail\<close> is the text in which every entry of \<open>es\<close> is preceded by the
  text \<open>junk\<close> gives for it, and \<open>tail\<close> follows the last entry.
\<close>

fun assemble :: "jsstring list \<Rightarrow> jsstring list \<Rightarrow> jsstring \<Rightarrow> jsstring" where
  "assemble (j # junk) (e # es) tail = j @ e @ assemble junk es tail"
| "assemble _ _ tail = tail"

subsection \<open>The splitter on well-formed texts\<close>

lemma scanBraces_balanced:
  "balanced b \<Longrightarrow>
     scanBraces (Suc d) (b @ r) = (b @ fst (scanBraces (Suc d) r), snd (scanBraces (Suc d) r))"
proof (induction b arbitrary: d r rule: balanced.induct)
  case bal_Nil
  show ?case by simp
next
  case (bal_Chr c s)
  then show ?case by (simp add: Let_def)
next
  case (bal_Brc s t)
  have "scanBraces (Suc (Suc d)) (s @ c_rbrace # t @ r)
          = (s @ fst (scanBraces (Suc (Suc d)) (c_rbrace # t @ r)),
             snd (scanBraces (Suc (Suc d)) (c_rbrace # t @ r)))"
    by (rule bal_Brc.IH(1))
  moreover have "scanBraces (Suc (Suc d)) (c_rbrace # t @ r)
          = (c_rbrace # fst (scanBraces (Suc d) (t @ r)), snd (scanBraces (Suc d) (t @ r)))"
    by (simp add: Let_def)
  moreover have "scanBraces (Suc d) (t @ r)
          = (t @ fst (scanBraces (Suc d) r), snd (scanBraces (Suc d) r))"
    by (rule bal_Brc.IH(2))
  ultimately show ?case by (simp add: Let_def)
qed

lemma scanBraces_body:
  assumes "balanced body"
  shows "scanBraces 1 (body @ c_rbrace # rest) = (body @ [c_rbrace], rest)"
proof -
  have "scanBraces (Suc 0) (c_rbrace # rest) = ([c_rbrace], rest)"
    by (cases rest) (simp_all add: Let_def)
  then show ?thesis
    using scanBraces_balanced[OF assms, of 0 "c_rbrace # rest"] by simp
qed

lemma splitFrom_no_at:
  assumes "c_at \<notin> set s"
  shows "splitFrom s = []"
proof -
  have "dropWhile (\<lambda>c. c \<noteq> c_at) s = []"
    using assms by (induction s) auto
  then show ?thesis by (subst splitFrom.simps) (simp only: list.case)
qed

lemma splitFrom_entry:
  assumes junk: "c_at \<notin> set j" and e: "bib_entry e"
  shows "splitFrom (j @ e @ rest) = e # splitFrom rest"
proof -
  from e obtain pre body where
    e_eq: "e = c_at # pre @ c_lbrace # body @ [c_rbrace]"
    and pre: "c_lbrace \<notin> set pre" and body: "balanced body"
    unfolding bib_entry_def by blast
  let ?rest1 = "pre @ c_lbrace # body @ c_rbrace # rest"
  have d1: "dropWhile (\<lambda>c. c \<noteq> c_at) (j @ c_at # ?rest1) = c_at # ?rest1"
    using junk by (induction j) auto
  have d2: "dropWhile (\<lambda>c. c \<noteq> c_lbrace) (c_at # ?rest1)
              = c_lbrace # body @ c_rbrace # rest"
    using pre by (induction pre) auto
  have t2: "takeWhile (\<lambda>c. c \<noteq> c_lbrace) (c_at # ?rest1) = c_at # pre"
    using pre by (induction pre) auto
  have sc: "scanBraces 1 (body @ c_rbrace # rest) = (body @ [c_rbrace], rest)"
    by (rule scanBraces_body[OF body])
  have "splitFrom (j @ c_at # ?rest1) = (c_at # pre @ c_lbrace # fst (body @ [c_rbrace], rest))
           # splitFrom (snd (body @ [c_rbrace], rest))"
    by (subst splitFrom.simps) (simp only: d1 d2 t2 sc list.case append.simps)
  then show ?thesis by (simp add: e_eq)
qed

lemma splitFrom_assemble:
  assumes "length junk = length es"
    and "\<forall>j \<in> set junk. c_at \<notin> set j"
    and "\<forall>e \<in> set es. bib_entry e"
    and "c_at \<notin> set tail"
  shows "splitFrom (assemble junk es tail) = es"
  using assms
  by (induction junk es tail rule: assemble.induct)
     (simp_all add: splitFrom_entry splitFrom_no_at)

section \<open>Verified claims\<close>

text \<open>
  C6. For every well-formed bibliography text, that is every text assembled from entries
  \<open>@type{...}\<close> with balanced braces, each preceded by text free of \<open>@\<close> and the last
  followed by text free of \<open>@\<close>, \<open>splitBibEntries\<close> returns exactly these entries, one per
  top-level entry and in source order; by the shape of \<open>assemble\<close> they are contiguous,
  non-overlapping slices of the text. The empty text yields the empty sequence.
\<close>

theorem C6_splitter_well_formed:
  "splitBibEntries [] = [] \<and>
   (length junk = length es \<and> (\<forall>j \<in> set junk. c_at \<notin> set j)
      \<and> (\<forall>e \<in> set es. bib_entry e) \<and> c_at \<notin> set tail
    \<longrightarrow> splitBibEntries (assemble junk es tail) = es)"
  unfolding splitBibEntries_def
  using splitFrom_assemble[of junk es tail] by (simp add: splitFrom.simps)


theorem C6_splitter_witness:
  "splitBibEntries (js ''% refs @a{k, t = {X}} and @b{k2}.'')
     = [js ''@a{k, t = {X}}'', js ''@b{k2}'']"
proof -
  have b0: "balanced (js ''X'')" and b1: "balanced []"
    by (simp_all add: js_def balanced.intros)
  have "balanced (c_lbrace # js ''X'' @ c_rbrace # [])"
    by (rule bal_Brc[OF b0 b1])
  then have "balanced (js ''k, t = {X}'')"
    by (simp add: js_def balanced.intros)
  then have e1: "bib_entry (js ''@a{k, t = {X}}'')"
    unfolding bib_entry_def
    by (intro exI[of _ "js ''a''"] exI[of _ "js ''k, t = {X}''"]) (simp add: js_def)
  have "balanced (js ''k2'')"
    by (simp add: js_def balanced.intros)
  then have e2: "bib_entry (js ''@b{k2}'')"
    unfolding bib_entry_def
    by (intro exI[of _ "js ''b''"] exI[of _ "js ''k2''"]) (simp add: js_def)
  show ?thesis
    using C6_splitter_well_formed[of "[js ''% refs '', js '' and '']"
        "[js ''@a{k, t = {X}}'', js ''@b{k2}'']" "js ''.''"] e1 e2
    by (simp add: js_def)
qed

section \<open>Evaluating the bibliography functions\<close>

declare scanBraces.simps [simp del]

lemmas ev_bib = ev_engine getBibField_def reBrace_def reQuote_def reBare_def re_trail_comma_def
  group1_def empty_str_def one_space_def normDOI_def re_doi_url_def re_doi_label_def
  re_trail_punct_def normalizeTitle_def re_braces_def re_non_alnum_def re_spaces_def
  doi_key_def title_key_def

lemmas ev_split_entries = js_def splitBibEntries_def splitFrom.simps ev_scanBraces

section \<open>The index\<close>

lemma index_step_fst:
  "fst (index_step e (d, t)) = (if doi_key e \<noteq> [] then AList.update (doi_key e) e d else d)"
  by (simp add: index_step_def Let_def)

lemma index_step_snd:
  "snd (index_step e (d, t)) = (if title_key e \<noteq> [] then AList.update (title_key e) e t else t)"
  by (simp add: index_step_def Let_def)

lemma fold_index_step_doi:
  "map_of (fst (fold index_step es (d, t))) k =
     (if k \<noteq> [] \<and> filter (\<lambda>e. doi_key e = k) es \<noteq> []
      then Some (last (filter (\<lambda>e. doi_key e = k) es)) else map_of d k)"
proof (induction es arbitrary: d t)
  case Nil
  show ?case by simp
next
  case (Cons e es)
  obtain d' t' where st: "index_step e (d, t) = (d', t')" by (cases "index_step e (d, t)")
  have d': "d' = (if doi_key e \<noteq> [] then AList.update (doi_key e) e d else d)"
    using index_step_fst[of e d t] st by simp
  have "map_of (fst (fold index_step (e # es) (d, t))) k = map_of (fst (fold index_step es (d', t'))) k"
    by (simp add: st)
  also have "\<dots> = (if k \<noteq> [] \<and> filter (\<lambda>e. doi_key e = k) es \<noteq> []
      then Some (last (filter (\<lambda>e. doi_key e = k) es)) else map_of d' k)"
    by (rule Cons.IH)
  finally show ?case
    by (auto simp: d' update_conv')
qed

lemma fold_index_step_title:
  "map_of (snd (fold index_step es (d, t))) k =
     (if k \<noteq> [] \<and> filter (\<lambda>e. title_key e = k) es \<noteq> []
      then Some (last (filter (\<lambda>e. title_key e = k) es)) else map_of t k)"
proof (induction es arbitrary: d t)
  case Nil
  show ?case by simp
next
  case (Cons e es)
  obtain d' t' where st: "index_step e (d, t) = (d', t')" by (cases "index_step e (d, t)")
  have t': "t' = (if title_key e \<noteq> [] then AList.update (title_key e) e t else t)"
    using index_step_snd[of e d t] st by simp
  have "map_of (snd (fold index_step (e # es) (d, t))) k = map_of (snd (fold index_step es (d', t'))) k"
    by (simp add: st)
  also have "\<dots> = (if k \<noteq> [] \<and> filter (\<lambda>e. title_key e = k) es \<noteq> []
      then Some (last (filter (\<lambda>e. title_key e = k) es)) else map_of t' k)"
    by (rule Cons.IH)
  finally show ?case
    by (auto simp: t' update_conv')
qed

lemma fold_index_step_distinct:
  "distinct (map fst d) \<Longrightarrow> distinct (map fst t) \<Longrightarrow>
     distinct (map fst (fst (fold index_step es (d, t))))
     \<and> distinct (map fst (snd (fold index_step es (d, t))))"
proof (induction es arbitrary: d t)
  case Nil
  then show ?case by simp
next
  case (Cons e es)
  obtain d' t' where st: "index_step e (d, t) = (d', t')" by (cases "index_step e (d, t)")
  have "distinct (map fst d')"
    using index_step_fst[of e d t] st Cons.prems(1) by (simp add: distinct_update)
  moreover have "distinct (map fst t')"
    using index_step_snd[of e d t] st Cons.prems(2) by (simp add: distinct_update)
  ultimately show ?case using Cons.IH[of d' t'] by (simp add: st)
qed

lemma byDOI_lookup:
  "map_of (byDOI (buildBibIndex bib)) k =
     (if k \<noteq> [] \<and> filter (\<lambda>e. doi_key e = k) (splitBibEntries bib) \<noteq> []
      then Some (last (filter (\<lambda>e. doi_key e = k) (splitBibEntries bib))) else None)"
  by (simp add: buildBibIndex_def Let_def fold_index_step_doi)

lemma byTitle_lookup:
  "map_of (byTitle (buildBibIndex bib)) k =
     (if k \<noteq> [] \<and> filter (\<lambda>e. title_key e = k) (splitBibEntries bib) \<noteq> []
      then Some (last (filter (\<lambda>e. title_key e = k) (splitBibEntries bib))) else None)"
  by (simp add: buildBibIndex_def Let_def fold_index_step_title)

lemma index_distinct:
  "distinct (map fst (byDOI (buildBibIndex bib)))"
  "distinct (map fst (byTitle (buildBibIndex bib)))"
  using fold_index_step_distinct[of "[]" "[]" "splitBibEntries bib"]
  by (simp_all add: buildBibIndex_def Let_def)

lemma last_filter_in:
  assumes "filter P xs \<noteq> []"
  shows "P (last (filter P xs))" and "last (filter P xs) \<in> set xs"
proof -
  have "last (filter P xs) \<in> set (filter P xs)" using assms by (rule last_in_set)
  then show "P (last (filter P xs))" and "last (filter P xs) \<in> set xs" by simp_all
qed

lemma byDOI_member:
  assumes "(k, e) \<in> set (byDOI (buildBibIndex bib))"
  shows "k \<noteq> [] \<and> doi_key e = k \<and> e \<in> set (splitBibEntries bib)"
proof -
  have "map_of (byDOI (buildBibIndex bib)) k = Some e"
    using assms index_distinct(1) by simp
  then show ?thesis
    using last_filter_in[of "\<lambda>e. doi_key e = k" "splitBibEntries bib"]
    by (auto simp: byDOI_lookup split: if_splits)
qed

lemma byTitle_member:
  assumes "(k, e) \<in> set (byTitle (buildBibIndex bib))"
  shows "k \<noteq> [] \<and> title_key e = k \<and> e \<in> set (splitBibEntries bib)"
proof -
  have "map_of (byTitle (buildBibIndex bib)) k = Some e"
    using assms index_distinct(2) by simp
  then show ?thesis
    using last_filter_in[of "\<lambda>e. title_key e = k" "splitBibEntries bib"]
    by (auto simp: byTitle_lookup split: if_splits)
qed

text \<open>
  C9. For every bibliography text, the index that \<open>buildBibIndex\<close> builds holds the
  entries of the splitter in source order; no key occurs twice in the DOI map or in the
  title map; every entry with a non-empty normalized DOI (normalized title) has its key in
  the DOI map (title map), mapped to the last entry in source order that normalizes to
  this key; and every pair of a map has a non-empty key that is the normalized key of its
  entry, so that an entry lacking both a DOI and a title is in neither map and appears
  only in the ordered sequence.
\<close>

theorem C9_index_invariant:
  "entries (buildBibIndex bib) = splitBibEntries bib
   \<and> distinct (map fst (byDOI (buildBibIndex bib)))
   \<and> distinct (map fst (byTitle (buildBibIndex bib)))
   \<and> (\<forall>e \<in> set (splitBibEntries bib). doi_key e \<noteq> [] \<longrightarrow>
         map_of (byDOI (buildBibIndex bib)) (doi_key e)
           = Some (last (filter (\<lambda>e'. doi_key e' = doi_key e) (splitBibEntries bib))))
   \<and> (\<forall>e \<in> set (splitBibEntries bib). title_key e \<noteq> [] \<longrightarrow>
         map_of (byTitle (buildBibIndex bib)) (title_key e)
           = Some (last (filter (\<lambda>e'. title_key e' = title_key e) (splitBibEntries bib))))
   \<and> (\<forall>k e. (k, e) \<in> set (byDOI (buildBibIndex bib)) \<longrightarrow>
         k \<noteq> [] \<and> doi_key e = k \<and> e \<in> set (splitBibEntries bib))
   \<and> (\<forall>k e. (k, e) \<in> set (byTitle (buildBibIndex bib)) \<longrightarrow>
         k \<noteq> [] \<and> title_key e = k \<and> e \<in> set (splitBibEntries bib))"
proof -
  let ?es = "splitBibEntries bib" and ?idx = "buildBibIndex bib"
  have a: "entries ?idx = ?es"
    by (simp add: buildBibIndex_def Let_def)
  have b: "\<forall>e \<in> set ?es. doi_key e \<noteq> [] \<longrightarrow>
         map_of (byDOI ?idx) (doi_key e) = Some (last (filter (\<lambda>e'. doi_key e' = doi_key e) ?es))"
  proof (intro ballI impI)
    fix e assume "e \<in> set ?es" "doi_key e \<noteq> []"
    then have "filter (\<lambda>e'. doi_key e' = doi_key e) ?es \<noteq> []"
      by (auto simp: filter_empty_conv)
    then show "map_of (byDOI ?idx) (doi_key e)
           = Some (last (filter (\<lambda>e'. doi_key e' = doi_key e) ?es))"
      using \<open>doi_key e \<noteq> []\<close> by (simp add: byDOI_lookup)
  qed
  have c: "\<forall>e \<in> set ?es. title_key e \<noteq> [] \<longrightarrow>
         map_of (byTitle ?idx) (title_key e) = Some (last (filter (\<lambda>e'. title_key e' = title_key e) ?es))"
  proof (intro ballI impI)
    fix e assume "e \<in> set ?es" "title_key e \<noteq> []"
    then have "filter (\<lambda>e'. title_key e' = title_key e) ?es \<noteq> []"
      by (auto simp: filter_empty_conv)
    then show "map_of (byTitle ?idx) (title_key e)
           = Some (last (filter (\<lambda>e'. title_key e' = title_key e) ?es))"
      using \<open>title_key e \<noteq> []\<close> by (simp add: byTitle_lookup)
  qed
  have d: "\<forall>k e. (k, e) \<in> set (byDOI ?idx) \<longrightarrow> k \<noteq> [] \<and> doi_key e = k \<and> e \<in> set ?es"
    using byDOI_member by blast
  have e: "\<forall>k e. (k, e) \<in> set (byTitle ?idx) \<longrightarrow> k \<noteq> [] \<and> title_key e = k \<and> e \<in> set ?es"
    using byTitle_member by blast
  show ?thesis
    by (intro conjI) (rule a, rule index_distinct(1), rule index_distinct(2), rule b, rule c, rule d, rule e)
qed

text \<open>A bibliography of three entries: two with the same DOI, one with neither DOI nor title.\<close>

definition ex_a :: jsstring where "ex_a = js ''@a{k1, doi = {10.1/X}, title = {One}}''"
definition ex_b :: jsstring where "ex_b = js ''@b{k2, doi = {doi:10.1/x}, title = {Two}}''"
definition ex_c :: jsstring where "ex_c = js ''@c{k3}''"
definition ex_bib :: jsstring where "ex_bib = ex_a @ js '' '' @ ex_b @ js '' '' @ ex_c"

lemma ex_split: "splitBibEntries ex_bib = [ex_a, ex_b, ex_c]"
  by (simp add: ex_bib_def ex_a_def ex_b_def ex_c_def ev_split_entries)

lemma ex_doi_keys: "doi_key ex_a = js ''10.1/x''" "doi_key ex_b = js ''10.1/x''" "doi_key ex_c = []"
  by (simp_all add: ex_a_def ex_b_def ex_c_def ev_bib)

lemma ex_title_keys: "title_key ex_a = js ''one''" "title_key ex_b = js ''two''" "title_key ex_c = []"
  by (simp_all add: ex_a_def ex_b_def ex_c_def ev_bib)

theorem C9_index_witness:
  "map_of (byDOI (buildBibIndex ex_bib)) (js ''10.1/x'') = Some ex_b
   \<and> map_of (byTitle (buildBibIndex ex_bib)) (js ''one'') = Some ex_a
   \<and> (\<forall>k. (k, ex_c) \<notin> set (byDOI (buildBibIndex ex_bib)))
   \<and> (\<forall>k. (k, ex_c) \<notin> set (byTitle (buildBibIndex ex_bib)))"
proof -
  note inv = C9_index_invariant[of ex_bib]
  from inv have doi: "\<forall>e \<in> set (splitBibEntries ex_bib). doi_key e \<noteq> [] \<longrightarrow>
         map_of (byDOI (buildBibIndex ex_bib)) (doi_key e)
           = Some (last (filter (\<lambda>e'. doi_key e' = doi_key e) (splitBibEntries ex_bib)))"
    by (elim conjE)
  from inv have title: "\<forall>e \<in> set (splitBibEntries ex_bib). title_key e \<noteq> [] \<longrightarrow>
         map_of (byTitle (buildBibIndex ex_bib)) (title_key e)
           = Some (last (filter (\<lambda>e'. title_key e' = title_key e) (splitBibEntries ex_bib)))"
    by (elim conjE)
  from inv have dm: "\<forall>k e. (k, e) \<in> set (byDOI (buildBibIndex ex_bib)) \<longrightarrow>
         k \<noteq> [] \<and> doi_key e = k \<and> e \<in> set (splitBibEntries ex_bib)"
    by (elim conjE)
  from inv have tm: "\<forall>k e. (k, e) \<in> set (byTitle (buildBibIndex ex_bib)) \<longrightarrow>
         k \<noteq> [] \<and> title_key e = k \<and> e \<in> set (splitBibEntries ex_bib)"
    by (elim conjE)
  have "map_of (byDOI (buildBibIndex ex_bib)) (js ''10.1/x'') = Some ex_b"
    using bspec[OF doi, of ex_a] by (simp add: ex_split ex_doi_keys js_def)
  moreover have "map_of (byTitle (buildBibIndex ex_bib)) (js ''one'') = Some ex_a"
    using bspec[OF title, of ex_a] by (simp add: ex_split ex_title_keys js_def)
  moreover have "(k, ex_c) \<notin> set (byDOI (buildBibIndex ex_bib))" for k
    using spec[OF spec[OF dm, of k], of ex_c] by (auto simp: ex_doi_keys)
  moreover have "(k, ex_c) \<notin> set (byTitle (buildBibIndex ex_bib))" for k
    using spec[OF spec[OF tm, of k], of ex_c] by (auto simp: ex_title_keys)
  ultimately show ?thesis by blast
qed



section \<open>The resolver\<close>

lemma fuzzy_fold_in:
  "fst (fold (fuzzy_step t) al b) = fst b \<or> fst (fold (fuzzy_step t) al b) \<in> snd ` set al"
proof (induction al arbitrary: b)
  case Nil
  show ?case by simp
next
  case (Cons ke al)
  have "fst (fuzzy_step t ke b) = fst b \<or> fst (fuzzy_step t ke b) = snd ke"
    by (simp add: fuzzy_step_def Let_def)
  then show ?case using Cons.IH[of "fuzzy_step t ke b"] by auto
qed

text \<open>When the two normalizations of a record throw.\<close>

lemma pub_doi_throws:
  "pub_doi pub = Inl TypeError
     \<longleftrightarrow> truthy (opt_prop pub (js ''doi'')) \<and> to_string (opt_prop pub (js ''doi'')) = Inl TypeError"
  by (cases "to_string (opt_prop pub (js ''doi''))")
     (auto simp: pub_doi_def normDOI_of_def or_val_def and_then_def intro: error.exhaust)

lemma pub_title_throws:
  "pub_title pub = Inl TypeError
     \<longleftrightarrow> truthy (opt_prop pub (js ''title'')) \<and> (\<forall>s. opt_prop pub (js ''title'') \<noteq> Str s)"
  by (cases "opt_prop pub (js ''title'')") (auto simp: pub_title_def or_val_def)

text \<open>The DOI map holds the normalized DOI of the record.\<close>

definition doi_hit :: "bibindex \<Rightarrow> jsval \<Rightarrow> bool" where
  "doi_hit idx pub \<longleftrightarrow> (\<exists>d. pub_doi pub = Inr d \<and> d \<noteq> [] \<and> map_of (byDOI idx) d \<noteq> None)"

text \<open>
  C10, as amended. When the index has not been built, \<open>findBibEntryFor\<close> returns the
  empty string for every input. With the index built it throws \<open>TypeError\<close> in two cases
  and in no other: when the \<open>doi\<close> of the record is truthy and cannot be converted to a
  string, and when the DOI map does not hold the normalized DOI of the record and its
  \<open>title\<close> is truthy and not a string (a number, \<open>true\<close>, an array, an object). So for every
  input whose \<open>title\<close> is a string or falsy and whose \<open>doi\<close> converts, it returns, and what
  it returns is the empty string or an entry text of one of the two maps. For a record
  that is \<open>null\<close> or \<open>undefined\<close> and for a record that has neither a truthy \<open>doi\<close> nor a
  truthy \<open>title\<close> it returns the empty string.
\<close>

theorem C10_resolver_amended:
  "findBibEntryFor None pub = Inr []
   \<and> (findBibEntryFor (Some idx) pub = Inl TypeError
        \<longleftrightarrow> (truthy (opt_prop pub (js ''doi''))
               \<and> to_string (opt_prop pub (js ''doi'')) = Inl TypeError)
            \<or> (\<not> doi_hit idx pub \<and> truthy (opt_prop pub (js ''title''))
               \<and> (\<forall>s. opt_prop pub (js ''title'') \<noteq> Str s)))
   \<and> ((\<not> truthy (opt_prop pub (js ''title'')) \<or> (\<exists>s. opt_prop pub (js ''title'') = Str s))
        \<and> (\<exists>d. to_string (opt_prop pub (js ''doi'')) = Inr d)
      \<longrightarrow> (\<exists>e. findBibEntryFor (Some idx) pub = Inr e))
   \<and> (\<forall>e. findBibEntryFor (Some idx) pub = Inr e
          \<longrightarrow> e = [] \<or> e \<in> snd ` set (byDOI idx) \<union> snd ` set (byTitle idx))
   \<and> (pub = Null \<or> pub = Undefined
        \<or> (\<not> truthy (opt_prop pub (js ''doi'')) \<and> \<not> truthy (opt_prop pub (js ''title'')))
      \<longrightarrow> findBibEntryFor (Some idx) pub = Inr [])"
proof -
  have f: "fst (fold (fuzzy_step t) (byTitle idx) ([], 0)) = []
      \<or> fst (fold (fuzzy_step t) (byTitle idx) ([], 0)) \<in> snd ` set (byTitle idx)" for t
    using fuzzy_fold_in[of t "byTitle idx" "([], 0)"] by simp
  have m: "map_of al k = Some e \<Longrightarrow> e \<in> snd ` set al" for al :: "(jsstring \<times> jsstring) list" and k e
    by (metis map_of_SomeD snd_conv image_eqI)
  have a: "findBibEntryFor None pub = Inr []"
    by (simp add: findBibEntryFor_def)
  have b0: "findBibEntryFor (Some idx) pub = Inl TypeError
        \<longleftrightarrow> pub_doi pub = Inl TypeError \<or> (\<not> doi_hit idx pub \<and> pub_title pub = Inl TypeError)"
    by (cases "pub_doi pub"; cases "pub_title pub")
       (auto simp: findBibEntryFor_def and_then_def doi_hit_def split: option.splits if_splits
             intro: error.exhaust)
  have b: "findBibEntryFor (Some idx) pub = Inl TypeError
        \<longleftrightarrow> (truthy (opt_prop pub (js ''doi''))
               \<and> to_string (opt_prop pub (js ''doi'')) = Inl TypeError)
            \<or> (\<not> doi_hit idx pub \<and> truthy (opt_prop pub (js ''title''))
               \<and> (\<forall>s. opt_prop pub (js ''title'') \<noteq> Str s))"
    unfolding b0 pub_doi_throws pub_title_throws by (rule refl)
  have c: "\<exists>e. findBibEntryFor (Some idx) pub = Inr e"
    if "(\<not> truthy (opt_prop pub (js ''title'')) \<or> (\<exists>s. opt_prop pub (js ''title'') = Str s))
        \<and> (\<exists>d. to_string (opt_prop pub (js ''doi'')) = Inr d)"
  proof -
    have "findBibEntryFor (Some idx) pub \<noteq> Inl TypeError"
      unfolding b using that by auto
    then show ?thesis
      by (cases "findBibEntryFor (Some idx) pub") (auto intro: error.exhaust)
  qed
  have d: "e = [] \<or> e \<in> snd ` set (byDOI idx) \<union> snd ` set (byTitle idx)"
    if "findBibEntryFor (Some idx) pub = Inr e" for e
    using that f m
    by (cases "pub_doi pub"; cases "pub_title pub")
       (auto simp: findBibEntryFor_def and_then_def split: option.splits if_splits)
  have e: "findBibEntryFor (Some idx) pub = Inr []"
    if "pub = Null \<or> pub = Undefined
        \<or> (\<not> truthy (opt_prop pub (js ''doi'')) \<and> \<not> truthy (opt_prop pub (js ''title'')))"
  proof -
    have "\<not> truthy (opt_prop pub (js ''doi'')) \<and> \<not> truthy (opt_prop pub (js ''title''))"
      using that by (auto simp: opt_prop_def)
    then show ?thesis
      by (simp add: findBibEntryFor_def and_then_def pub_doi_def pub_title_def or_val_def
            normDOI_of_def normalizeTitle_def)
  qed
  show ?thesis
    using a b c d e by blast
qed

text \<open>
  The claim as stated fails: with the index built, a record whose title is the number 7
  makes \<open>normalizeTitle\<close> call \<open>s.replace\<close> on a number, and \<open>findBibEntryFor\<close> throws.
\<close>

theorem C10_title_counterexample:
  "findBibEntryFor (Some (buildBibIndex ex_bib)) (Obj [(js ''title'', Num True (js ''7''))])
     = Inl TypeError"
  by (simp add: findBibEntryFor_def and_then_def pub_doi_def pub_title_def opt_prop_def
        or_val_def normDOI_of_def js_def)

text \<open>
  C2. For every publication record and every index built from a bibliography text, if
  the DOI map holds the normalized DOI of the record, \<open>findBibEntryFor\<close> returns the
  entry mapped under it, whatever the title map \<open>T\<close> holds and whatever the title of the
  record is: the title is not read.
\<close>

theorem C2_doi_precedence:
  assumes "pub_doi p = Inr d" and "map_of (byDOI (buildBibIndex bib)) d = Some e"
  shows "findBibEntryFor (Some ((buildBibIndex bib)\<lparr>byTitle := T\<rparr>)) p = Inr e"
proof -
  have "d \<noteq> []"
    using assms(2) by (auto simp: byDOI_lookup split: if_splits)
  then show ?thesis
    using assms by (simp add: findBibEntryFor_def and_then_def)
qed

definition ex_pub :: jsval where
  "ex_pub = Obj [(js ''title'', Str (js ''One'')), (js ''doi'', Str (js ''https://doi.org/10.1/X''))]"

lemma ex_pub_keys:
  "pub_doi ex_pub = Inr (js ''10.1/x'')"
  "pub_title ex_pub = Inr (js ''one'')"
  by (simp_all add: ex_pub_def pub_doi_def pub_title_def opt_prop_def or_val_def normDOI_of_def
        and_then_def ev_bib)

lemma ex_lookups:
  "map_of (byDOI (buildBibIndex ex_bib)) (js ''10.1/x'') = Some ex_b"
  "map_of (byTitle (buildBibIndex ex_bib)) (js ''one'') = Some ex_a"
  by (simp_all add: byDOI_lookup byTitle_lookup ex_split ex_doi_keys ex_title_keys js_def)

theorem C2_doi_precedence_witness:
  "findBibEntryFor (Some (buildBibIndex ex_bib)) ex_pub = Inr ex_b
   \<and> pub_title ex_pub = Inr (js ''one'')
   \<and> map_of (byTitle (buildBibIndex ex_bib)) (js ''one'') = Some ex_a
   \<and> ex_a \<noteq> ex_b"
  using C2_doi_precedence[of ex_pub "js ''10.1/x''" ex_bib ex_b "byTitle (buildBibIndex ex_bib)"]
  by (simp add: ex_pub_keys ex_lookups) (simp add: ex_a_def ex_b_def js_def)

text \<open>
  The resolver on the index of the example: the record \<open>null\<close> finds nothing, a record
  with the title of the first entry finds that entry, and a record whose title is an
  array throws.
\<close>

lemma ex_title_only:
  "pub_doi (Obj [(js ''title'', Str (js ''One''))]) = Inr []"
  "pub_title (Obj [(js ''title'', Str (js ''One''))]) = Inr (js ''one'')"
  by (simp_all add: pub_doi_def pub_title_def opt_prop_def or_val_def normDOI_of_def
        and_then_def ev_bib)

theorem C10_resolver_witness:
  "findBibEntryFor (Some (buildBibIndex ex_bib)) Null = Inr []
   \<and> findBibEntryFor (Some (buildBibIndex ex_bib)) (Obj [(js ''title'', Str (js ''One''))]) = Inr ex_a
   \<and> findBibEntryFor (Some (buildBibIndex ex_bib)) (Obj [(js ''title'', Arr [])]) = Inl TypeError"
proof (intro conjI)
  show "findBibEntryFor (Some (buildBibIndex ex_bib)) Null = Inr []"
    using C10_resolver_amended[of Null "buildBibIndex ex_bib"] by simp
  have "\<exists>e. findBibEntryFor (Some (buildBibIndex ex_bib)) (Obj [(js ''title'', Str (js ''One''))]) = Inr e"
    using C10_resolver_amended[of "Obj [(js ''title'', Str (js ''One''))]" "buildBibIndex ex_bib"]
    by (simp add: opt_prop_def js_def)
  moreover have "js ''one'' \<noteq> []"
    by (simp add: js_def)
  ultimately show "findBibEntryFor (Some (buildBibIndex ex_bib)) (Obj [(js ''title'', Str (js ''One''))]) = Inr ex_a"
    by (simp add: findBibEntryFor_def and_then_def ex_title_only ex_lookups)
  have "\<not> doi_hit (buildBibIndex ex_bib) (Obj [(js ''title'', Arr [])])"
    by (simp add: doi_hit_def pub_doi_def opt_prop_def or_val_def normDOI_of_def js_def)
  then show "findBibEntryFor (Some (buildBibIndex ex_bib)) (Obj [(js ''title'', Arr [])]) = Inl TypeError"
    using C10_resolver_amended[of "Obj [(js ''title'', Arr [])]" "buildBibIndex ex_bib"]
    by (simp add: opt_prop_def js_def)
qed


section \<open>The APA formatter on the example of the specification\<close>

lemmas ev_apa = ev_engine group1_def empty_str_def one_space_def re_braces_def re_spaces_def
  splitBibAuthors_def re_and_def nameToApa_def lastAndRest_def initialsOf_def initial_def
  formatAuthorsAPA_def sentenceCase_def re_outer_braces_def re_first_lower_def
  re_colon_lower_def re_caps2_def re_trail_dot_def upper_match_def colon_upper_def
  pagesNormalize_def re_hyphens_def en_dash_def formatDOIUrl_def normDOI_def re_doi_url_def
  re_doi_label_def re_trail_punct_def re_year_def

lemma ex_title_case: "sentenceCase (js ''Quantifying exposure biases in early instrumental land surface air temperature observations'')
  = js ''Quantifying exposure biases in early instrumental land surface air temperature observations''"
  by (simp add: ev_apa Let_def)

lemma ex_pages: "pagesNormalize (js ''1611-1635'') = js ''1611'' @ [c_endash] @ js ''1635''"
  by (simp add: ev_apa)

lemma ex_doi_url: "formatDOIUrl (js ''10.1002/joc.8401'') = js ''https://doi.org/10.1002/joc.8401''"
  by (simp add: ev_apa Let_def)

lemma ex_year: "search re_year (js ''2024'') = Some \<lparr> m_pre = [], m_text = js ''2024'', m_cap = None, m_prev = Some 52, m_rest = [] \<rparr>"
  by (simp add: ev_apa)

lemma ex_ref_spaces: "trim (replace_g re_spaces one_space (js ''Wallis, E. J., Osborn, T. J., & Taylor, M. (2024). Quantifying exposure biases in early instrumental land surface air temperature observations. International Journal of Climatology, 44(5), 1611'' @ [c_endash] @ js ''1635.''))
  = js ''Wallis, E. J., Osborn, T. J., & Taylor, M. (2024). Quantifying exposure biases in early instrumental land surface air temperature observations. International Journal of Climatology, 44(5), 1611'' @ [c_endash] @ js ''1635.''"
  by (simp add: ev_apa)

lemma ex_ref_dot: "replace re_trail_dot empty_str (js ''Wallis, E. J., Osborn, T. J., & Taylor, M. (2024). Quantifying exposure biases in early instrumental land surface air temperature observations. International Journal of Climatology, 44(5), 1611'' @ [c_endash] @ js ''1635.'')
  = js ''Wallis, E. J., Osborn, T. J., & Taylor, M. (2024). Quantifying exposure biases in early instrumental land surface air temperature observations. International Journal of Climatology, 44(5), 1611'' @ [c_endash] @ js ''1635''"
  by (simp add: ev_apa)


lemma ex_authors: "formatAuthorsAPA (splitBibAuthors (js ''Wallis, Emily J. and Osborn, Timothy J. and Taylor, Michael''))
   = js ''Wallis, E. J., Osborn, T. J., & Taylor, M.''"
  by (simp add: ev_apa Let_def)

lemma js_append: "js a @ js b = js (a @ b)"
  by (simp add: js_def)

lemma js_Nil_iff: "js s = [] \<longleftrightarrow> s = []"
  by (simp add: js_def)

text \<open>
  C1. For every entry whose fields \<open>author\<close>, \<open>year\<close>, \<open>title\<close>, \<open>journal\<close>, \<open>volume\<close>,
  \<open>number\<close>, \<open>pages\<close> and \<open>doi\<close>, as \<open>getBibField\<close> reads them, are those of Wallis,
  Osborn and Taylor (2024), \<open>apaFromBibtexEntry\<close> returns exactly the reference of the
  specification, with an en dash in the page range. No other field of the entry is
  consulted when these eight are present.
\<close>

theorem C1_apa_example:
  assumes "getBibField entry (js ''author'')
             = js ''Wallis, Emily J. and Osborn, Timothy J. and Taylor, Michael''"
    and "getBibField entry (js ''year'') = js ''2024''"
    and "getBibField entry (js ''title'')
             = js ''Quantifying exposure biases in early instrumental land surface air temperature observations''"
    and "getBibField entry (js ''journal'') = js ''International Journal of Climatology''"
    and "getBibField entry (js ''volume'') = js ''44''"
    and "getBibField entry (js ''number'') = js ''5''"
    and "getBibField entry (js ''pages'') = js ''1611-1635''"
    and "getBibField entry (js ''doi'') = js ''10.1002/joc.8401''"
  shows "apaFromBibtexEntry entry
           = js ''Wallis, E. J., Osborn, T. J., & Taylor, M. (2024). Quantifying exposure biases in early instrumental land surface air temperature observations. International Journal of Climatology, 44(5), 1611''
             @ [c_endash] @ js ''1635. https://doi.org/10.1002/joc.8401''"
proof -
  have year: "apaYear entry = js ''2024''"
    by (simp add: apaYear_def assms(2) or_str_def js_Nil_iff ex_year)
  have pages: "apaPages entry = js ''1611-1635''"
    by (simp add: apaPages_def assms(7) js_Nil_iff Let_def)
  have doi: "apaDoiUrl entry = js ''https://doi.org/10.1002/joc.8401''"
    by (simp add: apaDoiUrl_def assms(8) or_str_def js_Nil_iff ex_doi_url Let_def)
  have tail: "apaTail entry = js ''International Journal of Climatology, 44(5), 1611'' @ [c_endash] @ js ''1635.''"
    by (simp add: apaTail_def assms(4,5,6) pages ex_pages or_str_def js_Nil_iff Let_def js_append)
  have head: "join (js '' '') (filter (\<lambda>x. x \<noteq> [])
        [formatAuthorsAPA (splitBibAuthors (getBibField entry (js ''author''))),
         js ''('' @ apaYear entry @ js '').'',
         sentenceCase (getBibField entry (js ''title'')) @ js ''.''])
      = js ''Wallis, E. J., Osborn, T. J., & Taylor, M. (2024). Quantifying exposure biases in early instrumental land surface air temperature observations.''"
    by (simp add: assms(1,3) ex_authors ex_title_case year js_Nil_iff js_append)
  show ?thesis
    unfolding apaFromBibtexEntry_def Let_def head tail doi
    by (simp add: js_def ex_ref_spaces[unfolded js_def, simplified] ex_ref_dot[unfolded js_def, simplified])
qed



definition ex_wallis :: jsstring where
  "ex_wallis = js ''@article{wallis2024,\<newline>  author = {Wallis, Emily J. and Osborn, Timothy J. and Taylor, Michael},\<newline>  title = {Quantifying exposure biases in early instrumental land surface air temperature observations},\<newline>  journal = {International Journal of Climatology},\<newline>  year = {2024},\<newline>  volume = {44},\<newline>  number = {5},\<newline>  pages = {1611-1635},\<newline>  doi = {10.1002/joc.8401}\<newline>}''"

lemma ex_wallis_fields:
  "getBibField ex_wallis (js ''author'') = js ''Wallis, Emily J. and Osborn, Timothy J. and Taylor, Michael''"
  "getBibField ex_wallis (js ''year'') = js ''2024''"
  "getBibField ex_wallis (js ''title'') = js ''Quantifying exposure biases in early instrumental land surface air temperature observations''"
  "getBibField ex_wallis (js ''journal'') = js ''International Journal of Climatology''"
  "getBibField ex_wallis (js ''volume'') = js ''44''"
  "getBibField ex_wallis (js ''number'') = js ''5''"
  "getBibField ex_wallis (js ''pages'') = js ''1611-1635''"
  "getBibField ex_wallis (js ''doi'') = js ''10.1002/joc.8401''"
  by (simp_all add: ex_wallis_def ev_bib)

theorem C1_apa_example_witness:
  "apaFromBibtexEntry ex_wallis
           = js ''Wallis, E. J., Osborn, T. J., & Taylor, M. (2024). Quantifying exposure biases in early instrumental land surface air temperature observations. International Journal of Climatology, 44(5), 1611''
             @ [c_endash] @ js ''1635. https://doi.org/10.1002/joc.8401''"
  by (rule C1_apa_example[OF ex_wallis_fields])


section \<open>The year of a reference\<close>

text \<open>
  The first run of four digits of a text, without a pattern: the specification's
  "first 4-digit run".
\<close>

definition digits4 :: "jsstring \<Rightarrow> bool" where
  "digits4 s \<longleftrightarrow> 4 \<le> length s \<and> list_all is_digit (take 4 s)"

fun first_digit_run :: "jsstring \<Rightarrow> jsstring option" where
  "first_digit_run [] = None"
| "first_digit_run (c # cs) = (if digits4 (c # cs) then Some (take 4 (c # cs)) else first_digit_run cs)"

lemma mk_re_year:
  "mk re_year Some (cap, prev, s) =
     (case s of
        a # b # c # d # r \<Rightarrow>
          if is_digit a \<and> is_digit b \<and> is_digit c \<and> is_digit d then Some (cap, Some d, r) else None
      | _ \<Rightarrow> None)"
  by (simp add: re_year_def seqs_def mk.simps split: list.split)

lemma digits4_Cons4:
  "digits4 (a # b # c # d # r) \<longleftrightarrow> is_digit a \<and> is_digit b \<and> is_digit c \<and> is_digit d"
  by (simp add: digits4_def numeral_eq_Suc)

lemma digits4_short: "length s < 4 \<Longrightarrow> \<not> digits4 s"
  by (simp add: digits4_def)

lemma search_re_year:
  "map_option m_text (search_from re_year rpre prev s) = first_digit_run s"
proof (induction s arbitrary: rpre prev)
  case Nil
  show ?case by (simp add: search_from.simps mk_re_year)
next
  case (Cons x xs)
  show ?case
  proof (cases "digits4 (x # xs)")
    case True
    then obtain b c d r where xs: "xs = b # c # d # r"
      by (cases xs; cases "tl xs"; cases "tl (tl xs)") (auto simp: digits4_def)
    with True show ?thesis
      by (simp add: search_from.simps mk_re_year digits4_Cons4)
  next
    case False
    then have "mk re_year Some (None, prev, x # xs) = None"
      by (auto simp: mk_re_year digits4_Cons4 split: list.split)
    then show ?thesis using False Cons.IH by (simp add: search_from.simps)
  qed
qed

lemma first_digit_run_digits:
  "first_digit_run s = Some y \<Longrightarrow> length y = 4 \<and> list_all is_digit y"
  by (induction s) (auto simp: digits4_def split: if_splits)

text \<open>
  C8, as amended. The year of a reference is the first run of four digits of the \<open>year\<close>
  field when that field is not empty, and of the \<open>date\<close> field otherwise; it is the
  placeholder \<open>n.d.\<close> exactly when the field so chosen has no run of four digits.
\<close>

theorem C8_year_amended:
  "apaYear e =
     (case first_digit_run (or_str (getBibField e (js ''year'')) (getBibField e (js ''date''))) of
        None \<Rightarrow> js ''n.d.''
      | Some y \<Rightarrow> y)
   \<and> (apaYear e = js ''n.d.'' \<longleftrightarrow>
        first_digit_run (or_str (getBibField e (js ''year'')) (getBibField e (js ''date''))) = None)"
proof -
  let ?raw = "or_str (getBibField e (js ''year'')) (getBibField e (js ''date''))"
  have m: "map_option m_text (search re_year ?raw) = first_digit_run ?raw"
    unfolding search_def by (rule search_re_year)
  show ?thesis
  proof (cases "first_digit_run ?raw")
    case None
    then have "search re_year ?raw = None" using m by simp
    then show ?thesis using None by (simp add: apaYear_def Let_def)
  next
    case (Some y)
    then obtain mm where mm: "search re_year ?raw = Some mm" "m_text mm = y"
      using m by (cases "search re_year ?raw") auto
    from first_digit_run_digits[OF Some] have y: "length y = 4" "list_all is_digit y" by simp_all
    then have ne: "y \<noteq> []" by auto
    have "y \<noteq> js ''n.d.''"
      using y(2) by (auto simp: js_def is_digit_def)
    then show ?thesis using Some mm ne by (simp add: apaYear_def Let_def or_str_def)
  qed
qed

text \<open>
  The claim as stated fails: with a \<open>year\<close> field that is present and has no run of four
  digits, the \<open>date\<close> field is not consulted.
\<close>

definition ex_in_press :: jsstring where
  "ex_in_press = js ''@a{k, title = {A title}, year = {in press}, date = {2024-05-01}}''"

lemmas ev_all = ev_bib ev_apa apaYear_def apaPages_def apaDoiUrl_def apaTail_def
  apaFromBibtexEntry_def re_doi_org_def

lemma ex_in_press_fields:
  "getBibField ex_in_press (js ''year'') = js ''in press''"
  "getBibField ex_in_press (js ''date'') = js ''2024-05-01''"
  by (simp_all add: ex_in_press_def ev_bib)

theorem C8_year_counterexample:
  "getBibField ex_in_press (js ''year'') = js ''in press''
   \<and> getBibField ex_in_press (js ''date'') = js ''2024-05-01''
   \<and> first_digit_run (js ''2024-05-01'') = Some (js ''2024'')
   \<and> apaYear ex_in_press = js ''n.d.''"
  by (simp add: ex_in_press_fields apaYear_def or_str_def)
     (simp add: ev_engine re_year_def digits4_def)

lemma ex_in_press_apa: "apaFromBibtexEntry ex_in_press = js ''(n.d.). A title.''"
  by (simp add: ex_in_press_def ev_all Let_def)


section \<open>The field extractor without patterns\<close>

text \<open>A name occurs at the head of a text, in any letter case.\<close>

fun ci_prefix :: "jsstring \<Rightarrow> jsstring \<Rightarrow> bool" where
  "ci_prefix [] s = True"
| "ci_prefix (p # ps) [] = False"
| "ci_prefix (p # ps) (c # cs) = (ci_eq p c \<and> ci_prefix ps cs)"

text \<open>The code unit before the position reached by walking over a text.\<close>

fun prev_after :: "nat option \<Rightarrow> jsstring \<Rightarrow> nat option" where
  "prev_after prev [] = prev"
| "prev_after prev (c # cs) = prev_after (Some c) cs"

lemma prev_after_append: "prev_after prev (a @ b) = prev_after (prev_after prev a) b"
  by (induction a arbitrary: prev) simp_all

lemma prev_after_last: "s \<noteq> [] \<Longrightarrow> prev_after prev s = Some (last s)"
  by (induction s arbitrary: prev) auto

lemma mk_seqs_Cons: "mk (seqs (r # rs)) k = mk r (mk (seqs rs) k)"
  by (rule ext) (simp add: seqs_def mk.simps)

lemma mk_seqs_Nil: "mk (seqs []) k st = k st"
  by (simp add: seqs_def mk.simps)

lemma mk_stri:
  "mk (stri w) k (cap, prev, s) =
     (if ci_prefix w s then k (cap, prev_after prev (take (length w) s), drop (length w) s)
      else None)"
proof (induction w arbitrary: prev s)
  case Nil
  show ?case by (simp add: stri_def mk_seqs_Nil)
next
  case (Cons p ps)
  have step: "mk (stri (p # ps)) k st = mk (chri p) (mk (stri ps) k) st" for st
    by (simp add: stri_def mk_seqs_Cons)
  show ?case
  proof (cases s)
    case Nil
    then show ?thesis by (simp add: step chri_def mk.simps)
  next
    case (Cons c cs)
    then show ?thesis by (simp add: step chri_def mk.simps Cons.IH)
  qed
qed

lemma star_greedy_all:
  assumes "list_all P ws" and "rest = [] \<or> \<not> P (hd rest)"
    and "k (cap, prev_after prev ws, rest) = Some r"
  shows "star_greedy P k (cap, prev, ws @ rest) = Some r"
  using assms(1,3)
proof (induction ws arbitrary: prev)
  case Nil
  then show ?case using assms(2) by (cases rest) (simp_all add: star_greedy.simps)
next
  case (Cons c cs)
  then show ?case by (simp add: star_greedy.simps)
qed

lemma ci_eq_nonletter:
  assumes "\<not> is_lower d" "\<not> is_upper d"
  shows "ci_eq d x \<longleftrightarrow> x = d"
  using assms by (auto simp: ci_eq_def canon_def is_lower_def is_upper_def)

lemma mk_chri:
  "mk (chri d) k (cap, prev, c # cs) = (if ci_eq d c then k (cap, Some c, cs) else None)"
  "mk (chri d) k (cap, prev, []) = None"
  by (simp_all add: chri_def mk.simps)

text \<open>
  A greedy repetition of a class before a continuation that fails on every code unit of
  the class takes the whole run: there is nothing to go back to.
\<close>

lemma star_greedy_disjoint:
  assumes "\<And>cap prev c cs. P c \<Longrightarrow> k (cap, prev, c # cs) = None"
  shows "star_greedy P k (cap, prev, s)
           = k (cap, prev_after prev (takeWhile P s), dropWhile P s)"
proof (induction s arbitrary: prev)
  case Nil
  show ?case by (simp add: star_greedy.simps)
next
  case (Cons c cs)
  show ?case
  proof (cases "P c")
    case True
    have "k (cap, prev, c # cs) = None" using True by (rule assms)
    then show ?thesis using True Cons.IH[of "Some c"]
      by (cases "k (cap, prev_after (Some c) (takeWhile P cs), dropWhile P cs)")
         (simp_all add: star_greedy.simps)
  next
    case False
    then show ?thesis by (simp add: star_greedy.simps)
  qed
qed

text \<open>What a greedy repetition returns is what the continuation returns at a point of the run.\<close>

lemma star_greedy_point:
  assumes "star_greedy P k (cap, prev, s) = Some r"
  shows "\<exists>i p. i \<le> length (takeWhile P s) \<and> k (cap, p, drop i s) = Some r"
  using assms
proof (induction s arbitrary: prev)
  case Nil
  then show ?case by (auto simp: star_greedy.simps)
next
  case (Cons c cs)
  show ?case
  proof (cases "P c \<and> star_greedy P k (cap, Some c, cs) \<noteq> None")
    case True
    then have "star_greedy P k (cap, Some c, cs) = Some r"
      using Cons.prems by (auto simp: star_greedy.simps)
    from Cons.IH[OF this] obtain i p where "i \<le> length (takeWhile P cs)" "k (cap, p, drop i cs) = Some r"
      by blast
    then show ?thesis using True by (intro exI[of _ "Suc i"] exI[of _ p]) simp
  next
    case False
    then have "k (cap, prev, c # cs) = Some r"
      using Cons.prems by (auto simp: star_greedy.simps split: if_splits option.splits)
    then show ?thesis by (intro exI[of _ 0] exI[of _ prev]) simp
  qed
qed

lemma star_greedy_succeeds:
  assumes "i \<le> length (takeWhile P s)" and "\<And>p. k (cap, p, drop i s) \<noteq> None"
  shows "star_greedy P k (cap, prev, s) \<noteq> None"
  using assms
proof (induction s arbitrary: prev i)
  case Nil
  then show ?case by (simp add: star_greedy.simps)
next
  case (Cons c cs)
  show ?case
  proof (cases i)
    case 0
    then have "k (cap, prev, c # cs) \<noteq> None" using Cons.prems(2)[of prev] by simp
    then show ?thesis by (auto simp: star_greedy.simps split: option.splits)
  next
    case (Suc j)
    then have pc: "P c" and j: "j \<le> length (takeWhile P cs)"
      using Cons.prems(1) by (auto split: if_splits)
    have "star_greedy P k (cap, Some c, cs) \<noteq> None"
      using Cons.IH[OF j] Cons.prems(2) Suc by simp
    then show ?thesis using pc by (auto simp: star_greedy.simps)
  qed
qed


text \<open>
  The text of the capturing group in a final state of the matcher, and the first index
  of a text at which a function of the code unit before and the text from there on
  gives a result: the search of a pattern finds the first index where the pattern
  matches.
\<close>

definition cap_text :: "mstate \<Rightarrow> jsstring" where
  "cap_text st = (case fst st of None \<Rightarrow> [] | Some ab \<Rightarrow> between ab)"

lemma group1_mk_match: "group1 (mk_match rpre s st) = cap_text st"
  by (cases st) (simp add: group1_def cap_text_def split: option.splits)

fun first_at :: "(nat option \<Rightarrow> jsstring \<Rightarrow> 'a option) \<Rightarrow> nat option \<Rightarrow> jsstring \<Rightarrow> 'a option" where
  "first_at f prev [] = f prev []"
| "first_at f prev (c # cs) =
     (case f prev (c # cs) of Some v \<Rightarrow> Some v | None \<Rightarrow> first_at f (Some c) cs)"

lemma search_from_first:
  assumes "\<And>p x. map_option (\<lambda>st. g (cap_text st)) (mk r Some (None, p, x)) = f p x"
  shows "map_option (\<lambda>m. g (group1 m)) (search_from r rpre prev s) = first_at f prev s"
proof (induction s arbitrary: rpre prev)
  case Nil
  show ?case
    using assms[of prev "[]", symmetric]
    by (cases "mk r Some (None, prev, [])") (simp_all add: search_from.simps group1_mk_match)
next
  case (Cons c cs)
  show ?case
    using assms[of prev "c # cs", symmetric] Cons.IH[of "c # rpre" "Some c"]
    by (cases "mk r Some (None, prev, c # cs)") (simp_all add: search_from.simps group1_mk_match)
qed

text \<open>
  The three patterns of \<open>getBibField\<close> begin alike: a word boundary, the name in any
  letter case, white space and \<open>=\<close>. \<open>after_name\<close> is the text behind the \<open>=\<close> when the
  text at an index begins so.
\<close>

definition after_name :: "jsstring \<Rightarrow> nat option \<Rightarrow> jsstring \<Rightarrow> jsstring option" where
  "after_name name prev s =
     (if word_before prev \<noteq> word_after s \<and> ci_prefix name s then
        (case dropWhile is_space (drop (length name) s) of
           [] \<Rightarrow> None
         | c # t \<Rightarrow> if c = c_eq then Some t else None)
      else None)"

lemma mk_chri_nonletter:
  assumes "\<not> is_lower d" "\<not> is_upper d"
  shows "mk (chri d) k (cap, prev, s)
     = (case s of [] \<Rightarrow> None | c # t \<Rightarrow> if c = d then k (cap, Some d, t) else None)"
  by (cases s) (auto simp: mk_chri ci_eq_nonletter[OF assms])

lemma mk_chri_eq:
  "mk (chri c_eq) k (cap, prev, s)
     = (case s of [] \<Rightarrow> None | c # t \<Rightarrow> if c = c_eq then k (cap, Some c_eq, t) else None)"
  by (rule mk_chri_nonletter) (simp_all add: is_lower_def is_upper_def)

lemma mk_after_name:
  "mk (seqs (WordB # stri name # Star is_space # chri c_eq # ps)) k (cap, prev, s)
     = (case after_name name prev s of
          None \<Rightarrow> None
        | Some t \<Rightarrow> mk (seqs ps) k (cap, Some c_eq, t))"
proof -
  let ?k = "mk (chri c_eq) (mk (seqs ps) k)"
  define d where "d = dropWhile is_space (drop (length name) s)"
  have sp: "star_greedy is_space ?k (cap, p, x)
              = ?k (cap, prev_after p (takeWhile is_space x), dropWhile is_space x)" for p x
    by (rule star_greedy_disjoint) (auto simp: mk_chri_eq is_space_def)
  have "mk (seqs (WordB # stri name # Star is_space # chri c_eq # ps)) k (cap, prev, s)
          = (if word_before prev \<noteq> word_after s \<and> ci_prefix name s
             then star_greedy is_space ?k (cap, prev_after prev (take (length name) s), drop (length name) s)
             else None)"
    by (simp add: mk_seqs_Cons mk.simps mk_stri)
  then have "mk (seqs (WordB # stri name # Star is_space # chri c_eq # ps)) k (cap, prev, s)
          = (if word_before prev \<noteq> word_after s \<and> ci_prefix name s
             then (case d of [] \<Rightarrow> None
                   | c # t \<Rightarrow> if c = c_eq then mk (seqs ps) k (cap, Some c_eq, t) else None)
             else None)"
    unfolding sp d_def by (simp only: mk_chri_eq)
  then show ?thesis
    unfolding after_name_def d_def[symmetric]
    by (cases d) simp_all
qed

text \<open>
  A value between delimiters: behind the \<open>=\<close> and white space stands the opening
  delimiter, and the value is the text from there up to the first closing delimiter,
  which has to exist.
\<close>

definition delim_value :: "nat \<Rightarrow> nat \<Rightarrow> jsstring \<Rightarrow> jsstring option" where
  "delim_value opn cls t =
     (case dropWhile is_space t of
        [] \<Rightarrow> None
      | c # v \<Rightarrow> if c = opn \<and> cls \<in> set v then Some (takeWhile (\<lambda>x. x \<noteq> cls) v) else None)"

lemma star_lazy_exact:
  assumes "\<not> is_lower d" "\<not> is_upper d"
  shows "star_lazy (\<lambda>c. True) (grp_close s0 (mk (seqs [chri d]) Some)) (cap, prev, v)
           = (if d \<in> set v
              then Some (Some (s0, dropWhile (\<lambda>x. x \<noteq> d) v), Some d, tl (dropWhile (\<lambda>x. x \<noteq> d) v))
              else None)"
proof (induction v arbitrary: prev)
  case Nil
  show ?case
    by (simp add: star_lazy.simps mk_seqs_Cons mk_chri)
next
  case (Cons c cs)
  show ?case
    using Cons.IH[of "Some c"]
    by (simp add: star_lazy.simps mk_seqs_Cons mk_seqs_Nil mk_chri ci_eq_nonletter[OF assms])
qed

lemma take_length_dropWhile: "take (length v - length (dropWhile P v)) v = takeWhile P v"
  by (induction v) (simp_all add: Suc_diff_le length_dropWhile_le)

lemma mk_delim_value:
  assumes opn: "\<not> is_lower opn" "\<not> is_upper opn" "\<not> is_space opn"
    and cls: "\<not> is_lower cls" "\<not> is_upper cls"
  shows "map_option cap_text
           (mk (seqs [Star is_space, chri opn, Grp (StarLazy (\<lambda>c. True)), chri cls]) Some (None, p, t))
         = delim_value opn cls t"
proof -
  let ?k = "mk (chri opn) (mk (seqs [Grp (StarLazy (\<lambda>c. True)), chri cls]) Some)"
  have sp: "star_greedy is_space ?k (None, p, t)
              = ?k (None, prev_after p (takeWhile is_space t), dropWhile is_space t)"
    using opn by (intro star_greedy_disjoint) (auto simp: mk_chri ci_eq_nonletter)
  have g: "mk (seqs [Grp (StarLazy (\<lambda>c. True)), chri cls]) Some (None, q, v)
             = (if cls \<in> set v
                then Some (Some (v, dropWhile (\<lambda>x. x \<noteq> cls) v), Some cls, tl (dropWhile (\<lambda>x. x \<noteq> cls) v))
                else None)" for q v
    using star_lazy_exact[OF cls, of v None q v]
    by (simp add: mk_seqs_Cons[of "Grp (StarLazy (\<lambda>c. True))"] mk.simps)
  define d where "d = dropWhile is_space t"
  have "mk (seqs [Star is_space, chri opn, Grp (StarLazy (\<lambda>c. True)), chri cls]) Some (None, p, t)
          = ?k (None, prev_after p (takeWhile is_space t), d)"
    using sp by (simp add: mk_seqs_Cons[of "Star is_space"] mk_seqs_Cons[of "chri opn"] mk.simps d_def)
  then show ?thesis
    unfolding delim_value_def d_def[symmetric]
    by (cases d)
       (simp_all add: mk_chri_nonletter[OF opn(1,2)] g cap_text_def take_length_dropWhile)
qed


text \<open>The class \<open>[^,\n]\<close> of \<open>reBare\<close>, and a text that goes on with white space and a comma.\<close>

definition bare_cu :: "nat \<Rightarrow> bool" where
  "bare_cu c \<longleftrightarrow> c \<noteq> c_comma \<and> c \<noteq> c_newline"

lemma reBare_alt:
  "reBare name = seqs [WordB, stri name, Star is_space, chri c_eq, Star is_space,
                       Grp (Plus bare_cu), Star is_space, chri c_comma]"
  by (simp add: reBare_def bare_cu_def[abs_def])

definition comma_next :: "jsstring \<Rightarrow> bool" where
  "comma_next x = (case dropWhile is_space x of [] \<Rightarrow> False | d # r \<Rightarrow> d = c_comma)"

lemma mk_comma_next:
  "mk (seqs [Star is_space, chri c_comma]) Some (cap, prev, x)
     = (if comma_next x then Some (cap, Some c_comma, tl (dropWhile is_space x)) else None)"
proof -
  let ?k = "mk (chri c_comma) (mk (seqs []) Some)"
  define d where "d = dropWhile is_space x"
  have c: "mk (chri c_comma) k (cp, q, y)
             = (case y of [] \<Rightarrow> None | c # t \<Rightarrow> if c = c_comma then k (cp, Some c_comma, t) else None)"
    for k cp q y
    by (rule mk_chri_nonletter) (simp_all add: is_lower_def is_upper_def)
  have sp: "star_greedy is_space ?k (cp, q, x)
              = ?k (cp, prev_after q (takeWhile is_space x), d)" for cp q
    unfolding d_def by (rule star_greedy_disjoint) (auto simp: c is_space_def)
  have "mk (seqs [Star is_space, chri c_comma]) Some (cap, prev, x)
          = ?k (cap, prev_after prev (takeWhile is_space x), d)"
    using sp by (simp add: mk_seqs_Cons mk.simps)
  then show ?thesis
    unfolding comma_next_def d_def[symmetric]
    by (cases d) (simp_all add: c mk_seqs_Nil)
qed

lemma comma_next_append:
  "c_comma \<notin> set b \<Longrightarrow> comma_next (b @ rest) \<Longrightarrow> comma_next rest"
proof (induction b)
  case Nil
  then show ?case by simp
next
  case (Cons x xs)
  show ?case
  proof (cases "is_space x")
    case True
    then have "comma_next (xs @ rest)" using Cons.prems(2) by (simp add: comma_next_def)
    then show ?thesis using Cons by simp
  next
    case False
    then show ?thesis using Cons.prems by (simp add: comma_next_def)
  qed
qed

text \<open>The matcher of \<open>([^,\n]+)\s*,\<close> at a text \<open>u\<close>.\<close>

definition bare_tail :: re where
  "bare_tail = seqs [Grp (Plus bare_cu), Star is_space, chri c_comma]"

lemma mk_bare_tail:
  "mk bare_tail Some (None, p, u)
     = (case u of
          [] \<Rightarrow> None
        | c # cs \<Rightarrow>
            if bare_cu c
            then star_greedy bare_cu (grp_close u (mk (seqs [Star is_space, chri c_comma]) Some))
                   (None, Some c, cs)
            else None)"
  unfolding bare_tail_def
  by (subst mk_seqs_Cons, cases u) (simp_all add: mk.simps Plus_def)

lemma between_drop: "i \<le> length cs \<Longrightarrow> between (c # cs, drop i cs) = take (Suc i) (c # cs)"
  by simp

lemma bare_tail_longest:
  assumes "u = c # cs" "bare_cu c" "comma_next (dropWhile bare_cu u)"
  shows "\<exists>st. mk bare_tail Some (None, p, u) = Some st \<and> cap_text st = takeWhile bare_cu u"
proof -
  let ?k = "grp_close u (mk (seqs [Star is_space, chri c_comma]) Some)"
  let ?rest = "dropWhile bare_cu cs"
  let ?st = "(Some (u, ?rest), Some c_comma, tl (dropWhile is_space ?rest))"
  have r: "dropWhile bare_cu u = ?rest" using assms(1,2) by simp
  have stop: "?rest = [] \<or> \<not> bare_cu (hd ?rest)"
    using hd_dropWhile[of bare_cu cs] by blast
  have "star_greedy bare_cu ?k (None, Some c, takeWhile bare_cu cs @ ?rest) = Some ?st"
  proof (rule star_greedy_all)
    show "list_all bare_cu (takeWhile bare_cu cs)"
      by (auto simp: list_all_iff dest: set_takeWhileD)
    show "?rest = [] \<or> \<not> bare_cu (hd ?rest)"
      by (rule stop)
    show "?k (None, prev_after (Some c) (takeWhile bare_cu cs), ?rest) = Some ?st"
      using assms(3) unfolding r by (simp add: mk_comma_next)
  qed
  then have "mk bare_tail Some (None, p, u) = Some ?st"
    using assms(1,2) by (simp add: mk_bare_tail)
  moreover have "cap_text ?st = takeWhile bare_cu u"
    using take_length_dropWhile[of u bare_cu] r by (simp add: cap_text_def)
  ultimately show ?thesis by blast
qed

lemma bare_tail_point:
  assumes "mk bare_tail Some (None, p, u) = Some st"
  shows "\<exists>j. 1 \<le> j \<and> j \<le> length (takeWhile bare_cu u) \<and> comma_next (drop j u)
             \<and> cap_text st = take j u"
proof -
  let ?k = "grp_close u (mk (seqs [Star is_space, chri c_comma]) Some)"
  from assms obtain c cs where u: "u = c # cs" and b: "bare_cu c"
    and sg: "star_greedy bare_cu ?k (None, Some c, cs) = Some st"
    by (cases u) (auto simp: mk_bare_tail split: if_splits)
  from star_greedy_point[OF sg] obtain i q where i: "i \<le> length (takeWhile bare_cu cs)"
    and k: "?k (None, q, drop i cs) = Some st"
    by blast
  have cn: "comma_next (drop i cs)" and st: "fst st = Some (u, drop i cs)"
    using k by (auto simp: mk_comma_next split: if_splits)
  have le: "i \<le> length cs"
    using i length_takeWhile_le[of bare_cu cs] by simp
  have "cap_text st = take (Suc i) u"
    using st le by (simp add: cap_text_def u)
  then show ?thesis
    using i b cn by (intro exI[of _ "Suc i"]) (simp add: u)
qed

lemma bare_tail_succeeds:
  assumes "1 \<le> j" "j \<le> length (takeWhile bare_cu u)" "comma_next (drop j u)"
  shows "mk bare_tail Some (None, p, u) \<noteq> None"
proof -
  let ?k = "grp_close u (mk (seqs [Star is_space, chri c_comma]) Some)"
  from assms(1,2) obtain c cs where u: "u = c # cs" by (cases u) auto
  have b: "bare_cu c" using assms(1,2) u by (auto split: if_splits)
  obtain i where j: "j = Suc i" using assms(1) by (cases j) auto
  have i: "i \<le> length (takeWhile bare_cu cs)" using assms(2) u b j by simp
  have "star_greedy bare_cu ?k (None, Some c, cs) \<noteq> None"
  proof (rule star_greedy_succeeds[OF i])
    fix q
    show "?k (None, q, drop i cs) \<noteq> None"
      using assms(3) unfolding u j by (simp add: mk_comma_next)
  qed
  then show ?thesis using u b by (simp add: mk_bare_tail)
qed


text \<open>
  The matcher of \<open>\s*([^,\n]+)\s*,\<close>: what it returns is what \<open>bare_tail\<close> returns at a
  point of the leading white space.
\<close>

lemma bare_point:
  assumes "star_greedy is_space (mk bare_tail Some) (None, p, t) = Some st"
  shows "\<exists>i j. i \<le> length (takeWhile is_space t) \<and> 1 \<le> j
             \<and> j \<le> length (takeWhile bare_cu (drop i t))
             \<and> comma_next (drop (i + j) t) \<and> cap_text st = take j (drop i t)"
proof -
  from star_greedy_point[OF assms] obtain i q where i: "i \<le> length (takeWhile is_space t)"
    and k: "mk bare_tail Some (None, q, drop i t) = Some st"
    by blast
  from bare_tail_point[OF k] obtain j where "1 \<le> j" "j \<le> length (takeWhile bare_cu (drop i t))"
    "comma_next (drop j (drop i t))" "cap_text st = take j (drop i t)"
    by blast
  then show ?thesis using i by (intro exI[of _ i] exI[of _ j]) (simp add: add.commute)
qed

lemma bare_succeeds:
  assumes "i \<le> length (takeWhile is_space t)" "1 \<le> j"
    and "j \<le> length (takeWhile bare_cu (drop i t))" "comma_next (drop (i + j) t)"
  shows "star_greedy is_space (mk bare_tail Some) (None, p, t) \<noteq> None"
proof (rule star_greedy_succeeds[OF assms(1)])
  fix q
  have "comma_next (drop j (drop i t))" using assms(4) by (simp add: add.commute)
  then show "mk bare_tail Some (None, q, drop i t) \<noteq> None"
    by (rule bare_tail_succeeds[OF assms(2,3)])
qed

lemma drop_in_takeWhile:
  "i \<le> length (takeWhile P t) \<Longrightarrow> drop i t = drop i (takeWhile P t) @ dropWhile P t"
  by (metis append_eq_conv_conj drop_append takeWhile_dropWhile_id diff_is_0_eq drop0)

lemma length_takeWhile_append:
  "length (takeWhile Q (a @ b)) \<le> length a + length (takeWhile Q b)"
  by (induction a) simp_all

lemma trim_spaces:
  assumes "list_all is_space s"
  shows "trim s = []"
proof -
  have d: "dropWhile is_space s = []" using assms by (simp add: list_all_iff)
  show ?thesis unfolding trim_def d by simp
qed

text \<open>
  A bare value: behind the \<open>=\<close> and white space stands a code unit that is not a comma,
  and the value is the text from there up to the next comma or line feed, trimmed; a
  comma has to follow it, after white space at most. When a comma stands behind the
  \<open>=\<close> and the white space, the pattern takes white space for the value, unless that
  white space consists of line feeds: the value is empty.
\<close>

definition bare_value :: "jsstring \<Rightarrow> jsstring option" where
  "bare_value t =
     (case dropWhile is_space t of
        [] \<Rightarrow> None
      | c # r \<Rightarrow>
          if c = c_comma then
            (if list_all (\<lambda>x. x = c_newline) (takeWhile is_space t) then None else Some [])
          else if comma_next (dropWhile bare_cu (c # r))
               then Some (trim (takeWhile bare_cu (c # r)))
          else None)"

lemma mk_bare_value:
  "map_option (\<lambda>st. trim (cap_text st))
     (mk (seqs [Star is_space, Grp (Plus bare_cu), Star is_space, chri c_comma]) Some (None, p, t))
   = bare_value t"
proof -
  define ws where "ws = takeWhile is_space t"
  define r where "r = dropWhile is_space t"
  let ?T = "star_greedy is_space (mk bare_tail Some) (None, p, t)"
  have T: "mk (seqs [Star is_space, Grp (Plus bare_cu), Star is_space, chri c_comma]) Some (None, p, t) = ?T"
    by (subst mk_seqs_Cons) (simp add: mk.simps bare_tail_def)
  have t: "t = ws @ r" by (simp add: ws_def r_def)
  have ws: "list_all is_space ws"
    by (auto simp: ws_def list_all_iff dest: set_takeWhileD)
  have ws_nc: "c_comma \<notin> set ws"
    using ws by (auto simp: list_all_iff is_space_def)
  have dr: "drop i t = drop i ws @ r" if "i \<le> length ws" for i
    using drop_in_takeWhile[of i is_space t] that by (simp add: ws_def r_def)
  show ?thesis
  proof (cases r)
    case Nil
    have "?T = None"
    proof (rule ccontr)
      assume "?T \<noteq> None"
      then obtain st where "?T = Some st" by auto
      from bare_point[OF this] obtain i j where "comma_next (drop (i + j) t)" by blast
      moreover have "c_comma \<notin> set (drop (i + j) t)"
        using ws_nc t Nil by (auto dest: in_set_dropD)
      ultimately have "comma_next []"
        using comma_next_append[of "drop (i + j) t" "[]"] by simp
      then show False by (simp add: comma_next_def)
    qed
    then show ?thesis
      unfolding T using Nil by (simp add: bare_value_def r_def[symmetric])
  next
    case (Cons c r')
    have c_nsp: "\<not> is_space c"
      by (metis hd_dropWhile list.sel(1) list.distinct(1) r_def Cons)
    show ?thesis
    proof (cases "c = c_comma")
      case True
      have run: "length (takeWhile bare_cu (drop i t)) \<le> length (drop i ws)" if "i \<le> length ws" for i
        using length_takeWhile_append[of bare_cu "drop i ws" r] dr[OF that] Cons True
        by (simp add: bare_cu_def)
      show ?thesis
      proof (cases "list_all (\<lambda>x. x = c_newline) ws")
        case nl: True
        have "?T = None"
        proof (rule ccontr)
          assume "?T \<noteq> None"
          then obtain st where "?T = Some st" by auto
          from bare_point[OF this] obtain i j where i: "i \<le> length ws" and j: "1 \<le> j"
            "j \<le> length (takeWhile bare_cu (drop i t))"
            unfolding ws_def by blast
          have "takeWhile bare_cu (drop i t) = []"
          proof (cases "drop i ws")
            case Nil
            then show ?thesis using dr[OF i] Cons True by (simp add: bare_cu_def)
          next
            case (Cons x xs)
            then have "x \<in> set ws" by (metis in_set_dropD list.set_intros(1))
            then have "x = c_newline" using nl by (simp add: list_all_iff)
            then show ?thesis using dr[OF i] Cons by (simp add: bare_cu_def)
          qed
          then show False using j by simp
        qed
        then show ?thesis
          unfolding T using Cons True nl
          by (simp add: bare_value_def r_def[symmetric] ws_def[symmetric])
      next
        case nl: False
        then obtain i where i: "i < length ws" and x: "ws ! i \<noteq> c_newline"
          by (auto simp: list_all_iff in_set_conv_nth)
        have di: "drop i t = ws ! i # drop (Suc i) ws @ r"
          using dr[of i] i by (simp add: Cons_nth_drop_Suc)
        have sp: "is_space (ws ! i)"
          using ws i by (simp add: list_all_iff)
        have "bare_cu (ws ! i)"
          using x sp by (auto simp: bare_cu_def is_space_def)
        then have one: "1 \<le> length (takeWhile bare_cu (drop i t))"
          unfolding di by simp
        have "dropWhile is_space (drop (Suc i) ws @ r) = r"
        proof -
          have "dropWhile is_space (drop (Suc i) ws @ r) = dropWhile is_space r"
            using ws by (intro dropWhile_append2) (auto simp: list_all_iff dest: in_set_dropD)
          then show ?thesis by (simp add: r_def)
        qed
        then have cn: "comma_next (drop (i + 1) t)"
          using dr[of "Suc i"] i Cons True by (simp add: comma_next_def)
        have ne: "?T \<noteq> None"
          by (rule bare_succeeds[of i t 1]) (use i one cn in \<open>simp_all add: ws_def\<close>)
        then obtain st where st: "?T = Some st" by auto
        from bare_point[OF st] obtain i' j where i': "i' \<le> length ws"
          and j: "j \<le> length (takeWhile bare_cu (drop i' t))" and cap: "cap_text st = take j (drop i' t)"
          unfolding ws_def by blast
        have "j \<le> length (drop i' ws)" using j run[OF i'] by simp
        then have "cap_text st = take j (drop i' ws)"
          using cap dr[OF i'] by simp
        then have "set (cap_text st) \<subseteq> set ws"
          by (auto dest: in_set_takeD in_set_dropD)
        then have "list_all is_space (cap_text st)"
          using ws by (auto simp: list_all_iff)
        then have "trim (cap_text st) = []" by (rule trim_spaces)
        then show ?thesis
          unfolding T st using Cons True nl
          by (simp add: bare_value_def r_def[symmetric] ws_def[symmetric])
      qed
    next
      case False
      have bc: "bare_cu c"
        using False c_nsp by (auto simp: bare_cu_def is_space_def)
      show ?thesis
      proof (cases "comma_next (dropWhile bare_cu r)")
        case True
        from bare_tail_longest[OF Cons bc True, of "prev_after p ws"]
        obtain st where st: "mk bare_tail Some (None, prev_after p ws, r) = Some st"
          and cap: "cap_text st = takeWhile bare_cu r"
          by blast
        have "star_greedy is_space (mk bare_tail Some) (None, p, ws @ r) = Some st"
        proof (rule star_greedy_all)
          show "list_all is_space ws" by (rule ws)
          show "r = [] \<or> \<not> is_space (hd r)" using Cons c_nsp by simp
          show "mk bare_tail Some (None, prev_after p ws, r) = Some st" by (rule st)
        qed
        then have "?T = Some st" using t by simp
        then show ?thesis
          unfolding T using Cons False True cap
          by (simp add: bare_value_def r_def[symmetric])
      next
        case nc: False
        define run where "run = takeWhile bare_cu r"
        define after where "after = dropWhile bare_cu r"
        have r: "r = run @ after" by (simp add: run_def after_def)
        have run_nc: "c_comma \<notin> set run"
          by (auto simp: run_def bare_cu_def dest: set_takeWhileD)
        have tw: "takeWhile bare_cu (run @ after) = run"
          using r run_def by simp
        have "?T = None"
        proof (rule ccontr)
          assume "?T \<noteq> None"
          then obtain st where "?T = Some st" by auto
          from bare_point[OF this] obtain i j where i: "i \<le> length ws"
            and j: "j \<le> length (takeWhile bare_cu (drop i t))" and cn: "comma_next (drop (i + j) t)"
            unfolding ws_def by blast
          have "length (takeWhile bare_cu (drop i t)) \<le> length (drop i ws) + length run"
            using length_takeWhile_append[of bare_cu "drop i ws" "run @ after"] dr[OF i] r tw by simp
          then have le: "i + j \<le> length (ws @ run)" using i j by simp
          have "drop (i + j) t = drop (i + j) (ws @ run) @ after"
            using le t r by simp
          moreover have "c_comma \<notin> set (drop (i + j) (ws @ run))"
            using ws_nc run_nc by (auto dest: in_set_dropD)
          ultimately have "comma_next after"
            using cn comma_next_append[of "drop (i + j) (ws @ run)" after] by simp
          then show False using nc by (simp add: after_def)
        qed
        then show ?thesis
          unfolding T using Cons False nc
          by (simp add: bare_value_def r_def[symmetric])
      qed
    qed
  qed
qed


text \<open>Removing one trailing comma, without a pattern.\<close>

definition strip_comma :: "jsstring \<Rightarrow> jsstring" where
  "strip_comma s = (if s \<noteq> [] \<and> last s = c_comma then butlast s else s)"

lemma star_greedy_to_end:
  "star_greedy P (mk (seqs [Eol]) Some) (cap, prev, s)
     = (if list_all P s then Some (cap, prev_after prev s, []) else None)"
proof (induction s arbitrary: prev)
  case Nil
  show ?case by (simp add: star_greedy.simps mk_seqs_Cons mk_seqs_Nil mk.simps)
next
  case (Cons c cs)
  have "mk (seqs [Eol]) Some (cap, prev, c # cs) = None"
    by (simp add: mk_seqs_Cons mk.simps)
  then show ?case using Cons.IH by (simp add: star_greedy.simps)
qed

lemma mk_trail_comma:
  "mk re_trail_comma Some (cap, prev, s) =
     (case s of
        [] \<Rightarrow> None
      | c # cs \<Rightarrow> if c = c_comma \<and> list_all is_space cs
                 then Some (cap, prev_after (Some c) cs, []) else None)"
proof (cases s)
  case Nil
  then show ?thesis by (simp add: re_trail_comma_def mk_seqs_Cons chr_def mk.simps)
next
  case (Cons c cs)
  have "mk re_trail_comma Some (cap, prev, c # cs)
          = (if c = c_comma then star_greedy is_space (mk (seqs [Eol]) Some) (cap, Some c, cs) else None)"
    unfolding re_trail_comma_def
    by (subst mk_seqs_Cons, subst mk_seqs_Cons) (simp add: chr_def mk.simps)
  then show ?thesis using Cons by (simp add: star_greedy_to_end)
qed

lemma search_trail_comma:
  assumes "s = [] \<or> \<not> is_space (last s)"
  shows "map_option (\<lambda>m. (m_pre m, m_rest m)) (search_from re_trail_comma rpre prev s)
           = (if s \<noteq> [] \<and> last s = c_comma then Some (rev rpre @ butlast s, []) else None)"
  using assms
proof (induction s arbitrary: rpre prev)
  case Nil
  show ?case by (simp add: search_from.simps mk_trail_comma)
next
  case (Cons c cs)
  show ?case
  proof (cases "cs = []")
    case True
    then show ?thesis by (simp add: search_from.simps mk_trail_comma)
  next
    case False
    then have nsp: "\<not> is_space (last cs)" using Cons.prems by simp
    then have "\<not> list_all is_space cs"
      using False by (auto simp: list_all_iff)
    then have "mk re_trail_comma Some (None, prev, c # cs) = None"
      by (simp add: mk_trail_comma)
    then show ?thesis
      using Cons.IH[of "c # rpre" "Some c"] nsp False by (simp add: search_from.simps)
  qed
qed

lemma replace_trail_comma:
  assumes "s = [] \<or> \<not> is_space (last s)"
  shows "replace re_trail_comma empty_str s = strip_comma s"
proof -
  have m: "map_option (\<lambda>m. (m_pre m, m_rest m)) (search re_trail_comma s)
           = (if s \<noteq> [] \<and> last s = c_comma then Some (butlast s, []) else None)"
    using search_trail_comma[OF assms, of "[]" None] by (simp add: search_def)
  show ?thesis
  proof (cases "search re_trail_comma s")
    case None
    then show ?thesis using m by (auto simp: replace_def strip_comma_def split: if_splits)
  next
    case (Some mm)
    then show ?thesis using m
      by (auto simp: replace_def strip_comma_def empty_str_def split: if_splits)
  qed
qed

lemma trim_no_trailing: "trim s = [] \<or> \<not> is_space (last (trim s))"
proof -
  let ?u = "dropWhile is_space (rev (dropWhile is_space s))"
  have "?u = [] \<or> \<not> is_space (hd ?u)"
    using hd_dropWhile[of is_space "rev (dropWhile is_space s)"] by blast
  then show ?thesis
    by (auto simp: trim_def last_rev)
qed

text \<open>
  The common shape of \<open>reBrace\<close> and \<open>reQuote\<close>: the name, \<open>=\<close>, an opening delimiter,
  the lazily matched value and the closing delimiter.
\<close>

definition reDelim :: "jsstring \<Rightarrow> nat \<Rightarrow> nat \<Rightarrow> re" where
  "reDelim name opn cls = seqs [WordB, stri name, Star is_space, chri c_eq, Star is_space,
                                chri opn, Grp (StarLazy (\<lambda>c. True)), chri cls]"

lemma reBrace_reDelim: "reBrace name = reDelim name c_lbrace c_rbrace"
  by (simp add: reBrace_def reDelim_def)

lemma reQuote_reDelim: "reQuote name = reDelim name c_dquote c_dquote"
  by (simp add: reQuote_def reDelim_def)

text \<open>
  The value of a field at an index of the entry, in the styles with delimiters and in the
  bare style; the bare value comes trimmed.
\<close>

definition delim_at :: "nat \<Rightarrow> nat \<Rightarrow> jsstring \<Rightarrow> nat option \<Rightarrow> jsstring \<Rightarrow> jsstring option" where
  "delim_at opn cls name prev s =
     (case after_name name prev s of None \<Rightarrow> None | Some t \<Rightarrow> delim_value opn cls t)"

definition bare_at :: "jsstring \<Rightarrow> nat option \<Rightarrow> jsstring \<Rightarrow> jsstring option" where
  "bare_at name prev s =
     (case after_name name prev s of None \<Rightarrow> None | Some t \<Rightarrow> bare_value t)"

lemma mk_reDelim:
  assumes "\<not> is_lower opn" "\<not> is_upper opn" "\<not> is_space opn" "\<not> is_lower cls" "\<not> is_upper cls"
  shows "map_option (\<lambda>st. cap_text st) (mk (reDelim name opn cls) Some (None, p, x))
           = delim_at opn cls name p x"
  unfolding reDelim_def mk_after_name delim_at_def
  using mk_delim_value[OF assms]
  by (cases "after_name name p x") simp_all

lemma mk_reBare:
  "map_option (\<lambda>st. trim (cap_text st)) (mk (reBare name) Some (None, p, x)) = bare_at name p x"
  unfolding reBare_alt mk_after_name bare_at_def
  using mk_bare_value
  by (cases "after_name name p x") simp_all

lemma search_reBrace:
  "map_option (\<lambda>m. group1 m) (search (reBrace name) entry)
     = first_at (delim_at c_lbrace c_rbrace name) None entry"
  unfolding search_def reBrace_reDelim
  by (rule search_from_first, rule mk_reDelim) (simp_all add: is_lower_def is_upper_def is_space_def)

lemma search_reQuote:
  "map_option (\<lambda>m. group1 m) (search (reQuote name) entry)
     = first_at (delim_at c_dquote c_dquote name) None entry"
  unfolding search_def reQuote_reDelim
  by (rule search_from_first, rule mk_reDelim) (simp_all add: is_lower_def is_upper_def is_space_def)

lemma search_reBare:
  "map_option (\<lambda>m. trim (group1 m)) (search (reBare name) entry)
     = first_at (bare_at name) None entry"
  unfolding search_def
  by (rule search_from_first, rule mk_reBare)

text \<open>
  \<open>getBibField\<close> in the words of its contract, without patterns. The entry is read from
  its beginning for the first index where the name stands, in any letter case and at a
  word boundary, before white space, \<open>=\<close>, white space and a value in braces; when the
  entry has no such index, the same for a value in double quotes; when it has neither,
  the same for a bare value. A value between delimiters is trimmed and loses one
  trailing comma.
\<close>

definition getBibField_spec :: "jsstring \<Rightarrow> jsstring \<Rightarrow> jsstring" where
  "getBibField_spec entry name =
     (case first_at (delim_at c_lbrace c_rbrace name) None entry of
        Some v \<Rightarrow> strip_comma (trim v)
      | None \<Rightarrow>
         (case first_at (delim_at c_dquote c_dquote name) None entry of
            Some v \<Rightarrow> strip_comma (trim v)
          | None \<Rightarrow>
             (case first_at (bare_at name) None entry of
                Some v \<Rightarrow> v
              | None \<Rightarrow> [])))"

lemma getBibField_refines: "getBibField entry name = getBibField_spec entry name"
proof (cases "search (reBrace name) entry")
  case (Some m)
  then have "first_at (delim_at c_lbrace c_rbrace name) None entry = Some (group1 m)"
    using search_reBrace[of name entry] by simp
  then show ?thesis
    using Some by (simp add: getBibField_def getBibField_spec_def replace_trail_comma[OF trim_no_trailing])
next
  case None
  then have b: "first_at (delim_at c_lbrace c_rbrace name) None entry = None"
    using search_reBrace[of name entry] by simp
  show ?thesis
  proof (cases "search (reQuote name) entry")
    case (Some m)
    then have "first_at (delim_at c_dquote c_dquote name) None entry = Some (group1 m)"
      using search_reQuote[of name entry] by simp
    then show ?thesis
      using None Some b
      by (simp add: getBibField_def getBibField_spec_def replace_trail_comma[OF trim_no_trailing])
  next
    case qn: None
    then have q: "first_at (delim_at c_dquote c_dquote name) None entry = None"
      using search_reQuote[of name entry] by simp
    show ?thesis
      using None qn b q search_reBare[of name entry, symmetric]
      by (cases "search (reBare name) entry") (simp_all add: getBibField_def getBibField_spec_def)
  qed
qed

text \<open>Where the name is nowhere followed by \<open>=\<close>, no style has a value.\<close>

lemma first_at_None:
  assumes "\<And>p x. g p x = None \<Longrightarrow> f p x = None"
  shows "first_at g prev s = None \<Longrightarrow> first_at f prev s = None"
  by (induction s arbitrary: prev) (auto simp: assms split: option.splits)

text \<open>
  The names for which the model of \<open>getBibField\<close> is the function of the source: the
  source makes the name a part of the pattern, where a code unit of the name stands for
  itself unless it is one of \<open>$ ( ) * + . ? [ \ ] ^ { | }\<close>, and a code unit below 128
  equals, up to case, only code units below 128.
\<close>

definition pattern_cu :: "nat \<Rightarrow> bool" where
  "pattern_cu c \<longleftrightarrow> c \<in> {36, 40, 41, 42, 43, 46, 63, 91, 92, 93, 94, 123, 124, 125}"

definition plain_name :: "jsstring \<Rightarrow> bool" where
  "plain_name name \<longleftrightarrow> list_all (\<lambda>c. c < 128 \<and> \<not> pattern_cu c) name"

text \<open>
  C7, as amended. For every entry, so for every entry that the splitter produces, and
  every field name whose code units stand for themselves in a pattern, \<open>getBibField\<close>
  returns what \<open>getBibField_spec\<close> describes: the value at the first place of the entry
  where the name, in any letter case and at a word boundary, is followed by \<open>=\<close> and a
  value in braces (the text up to the first closing brace), else in double quotes, else
  bare (the text up to the next comma or line feed, before a comma), trimmed and, between
  delimiters, without one trailing comma. It returns the empty string when the name is
  nowhere followed by \<open>=\<close>. The value of a field that is present may be empty: a value
  between delimiters gives the empty string exactly when, trimmed, it is empty or a lone
  comma, as for \<open>note = {}\<close>.
\<close>

theorem C7_field_value_amended:
  assumes "plain_name name"
  shows "getBibField entry name = getBibField_spec entry name
     \<and> (first_at (after_name name) None entry = None \<longrightarrow> getBibField entry name = [])
     \<and> (strip_comma (trim v) = [] \<longleftrightarrow> trim v = [] \<or> trim v = [c_comma])"
proof (intro conjI impI)
  show "getBibField entry name = getBibField_spec entry name"
    by (rule getBibField_refines)
  show "getBibField entry name = []" if n: "first_at (after_name name) None entry = None"
  proof -
    have "first_at (delim_at opn cls name) None entry = None" for opn cls
      by (rule first_at_None[OF _ n]) (simp add: delim_at_def)
    moreover have "first_at (bare_at name) None entry = None"
      by (rule first_at_None[OF _ n]) (simp add: bare_at_def)
    ultimately show ?thesis
      by (simp add: getBibField_refines getBibField_spec_def)
  qed
  show "strip_comma (trim v) = [] \<longleftrightarrow> trim v = [] \<or> trim v = [c_comma]"
    by (cases "trim v" rule: rev_cases) (auto simp: strip_comma_def)
qed


lemmas ev_spec = getBibField_spec_def first_at.simps delim_at_def bare_at_def after_name_def
  delim_value_def bare_value_def comma_next_def bare_cu_def strip_comma_def trim_def
  word_before_def word_after_def ci_eq_def canon_def is_lower_def is_upper_def is_digit_def
  is_word_def is_space_def plain_name_def pattern_cu_def js_def

definition ex_braces :: jsstring where
  "ex_braces = js ''@a{k, booktitle = {B}, Title = {T, }}''"

definition ex_bare :: jsstring where
  "ex_bare = js ''@a{k, url = {doi.org/x}, doi = 10.1/X ,}''"

theorem C7_field_value_witness:
  "plain_name (js ''title'') \<and> getBibField ex_braces (js ''title'') = js ''T''
   \<and> plain_name (js ''doi'') \<and> getBibField ex_bare (js ''doi'') = js ''10.1/X''
   \<and> getBibField ex_bare (js ''year'') = []"
  using C7_field_value_amended[of "js ''title''" ex_braces]
    C7_field_value_amended[of "js ''doi''" ex_bare]
    C7_field_value_amended[of "js ''year''" ex_bare]
  by (simp add: ex_braces_def ex_bare_def ev_spec)

text \<open>
  The claim as stated fails: a field that occurs in an entry of the splitter may have an
  empty value.
\<close>

theorem C7_empty_field_counterexample:
  "splitBibEntries (js ''@misc{k, note = {}}'') = [js ''@misc{k, note = {}}'']
   \<and> search (reBrace (js ''note'')) (js ''@misc{k, note = {}}'') \<noteq> None
   \<and> getBibField (js ''@misc{k, note = {}}'') (js ''note'') = []"
  by (simp add: ev_bib ev_split_entries)


section \<open>The fallback entry\<close>

text \<open>
  The lines of a text, \<open>text.split('\n')\<close>, and the lines joined again: joining lines
  that hold no line feed and splitting the result gives the lines back.
\<close>

definition lines_of :: "jsstring \<Rightarrow> jsstring list" where
  "lines_of text = split_chr c_newline text"

lemma split_chr_from_line:
  "sep \<notin> set l \<Longrightarrow> split_chr_from sep racc l = [rev racc @ l]"
  by (induction l arbitrary: racc) auto

lemma split_chr_from_sep:
  "sep \<notin> set l \<Longrightarrow>
     split_chr_from sep racc (l @ sep # rest) = (rev racc @ l) # split_chr_from sep [] rest"
  by (induction l arbitrary: racc) auto

lemma lines_of_join:
  "ls \<noteq> [] \<Longrightarrow> \<forall>l \<in> set ls. c_newline \<notin> set l \<Longrightarrow> lines_of (join [c_newline] ls) = ls"
proof (induction "[c_newline]" ls rule: join.induct)
  case 1
  then show ?case by simp
next
  case (2 x)
  then show ?case by (simp add: lines_of_def split_chr_def split_chr_from_line)
next
  case (3 x y ys)
  then show ?case
    using split_chr_from_sep[of c_newline x "[]" "join [c_newline] (y # ys)"]
    by (simp add: lines_of_def split_chr_def)
qed

text \<open>A replacement of every match leaves the code units of the text and writes those of the replacements.\<close>

lemma replace_all_set:
  assumes "\<And>m. set (f m) \<subseteq> A"
  shows "set (replace_all r f prev s) \<subseteq> set s \<union> A"
  using assms
proof (induction r f prev s rule: replace_all.induct)
  case (1 r f prev s)
  show ?case
  proof (cases "search_from r [] prev s")
    case None
    then show ?thesis by (simp add: replace_all.simps[of r f prev s])
  next
    case (Some m)
    have parts: "m_pre m @ m_text m @ m_rest m = s"
      using search_from_parts[OF Some] by simp
    have pre: "set (m_pre m) \<subseteq> set s" and rest: "set (m_rest m) \<subseteq> set s"
      using arg_cong[OF parts, of set] by auto
    have fm: "set (f m) \<subseteq> A" by (rule 1(3))
    show ?thesis
    proof (cases "m_text m = []")
      case True
      show ?thesis
      proof (cases "m_rest m")
        case Nil
        then show ?thesis using Some True pre fm
          by (auto simp: replace_all.simps[of r f prev s])
      next
        case (Cons c cs)
        have "set (replace_all r f (Some c) cs) \<subseteq> set cs \<union> A"
          using 1(1)[OF Some True Cons 1(3)] .
        then show ?thesis using Some True Cons pre rest fm
          by (auto simp: replace_all.simps[of r f prev s])
      qed
    next
      case False
      have "set (replace_all r f (m_prev m) (m_rest m)) \<subseteq> set (m_rest m) \<union> A"
        using 1(2)[OF Some False 1(3)] .
      then show ?thesis using Some False pre rest fm
        by (auto simp: replace_all.simps[of r f prev s])
    qed
  qed
qed


text \<open>Lower-casing leaves a line feed and a \<open>=\<close> alone, and makes neither.\<close>

definition lower_fixed :: "nat \<Rightarrow> bool" where
  "lower_fixed c \<longleftrightarrow> c = c_newline \<or> c = c_eq"

lemma toLowerCase_fixed: "lower_fixed c \<Longrightarrow> c \<in> set (toLowerCase s) \<longleftrightarrow> c \<in> set s"
  by (auto simp: lower_fixed_def toLowerCase_def lower_cu_def is_upper_def split: if_splits)

text \<open>The slug of a title: \<open>.toLowerCase().replace(/[^a-z0-9]+/g,'-').replace(/^-+|-+$/g,'')\<close>.\<close>

definition slug :: "jsstring \<Rightarrow> jsstring" where
  "slug s = replace_g re_hyphen_ends empty_str (replace_g re_non_alnum one_hyphen (toLowerCase s))"

lemma slug_avoids:
  assumes "lower_fixed c" "c \<notin> set s"
  shows "c \<notin> set (slug s)"
proof -
  have "set (replace_g re_non_alnum one_hyphen (toLowerCase s)) \<subseteq> set (toLowerCase s) \<union> {c_hyphen}"
    unfolding replace_g_def by (rule replace_all_set) (simp add: one_hyphen_def)
  moreover have "set (slug s) \<subseteq> set (replace_g re_non_alnum one_hyphen (toLowerCase s)) \<union> {}"
    unfolding slug_def replace_g_def by (rule replace_all_set) (simp add: empty_str_def)
  ultimately have "set (slug s) \<subseteq> set (toLowerCase s) \<union> {c_hyphen}"
    by blast
  moreover have "c \<noteq> c_hyphen" using assms(1) by (auto simp: lower_fixed_def)
  ultimately show ?thesis
    using assms toLowerCase_fixed[of c s] by auto
qed

lemma get_prop_opt:
  "pub \<noteq> Null \<Longrightarrow> pub \<noteq> Undefined \<Longrightarrow> get_prop pub k = Inr (opt_prop pub k)"
  by (cases pub) (simp_all add: opt_prop_def)

text \<open>The key of the entry, for a record whose \<open>pub.title || ''\<close> is the string \<open>s\<close>.\<close>

definition key_of :: "jsval \<Rightarrow> jsstring \<Rightarrow> jsstring \<Rightarrow> jsstring" where
  "key_of year y s =
     or_str (take 60 ((if truthy year then y @ js ''-'' else []) @ slug s)) (js ''citation'')"

lemma pubKey_returns:
  assumes "pub \<noteq> Null" "pub \<noteq> Undefined"
    and "or_val (opt_prop pub (js ''title'')) (Str []) = Str s"
    and "to_string (opt_prop pub (js ''year'')) = Inr y"
  shows "pubKey pub = Inr (key_of (opt_prop pub (js ''year'')) y s)"
  using assms
  by (simp add: pubKey_def get_prop_opt and_then_def key_of_def slug_def)

lemma key_of_avoids:
  assumes "lower_fixed c" "c \<notin> set y" "c \<notin> set s"
  shows "c \<notin> set (key_of year y s)"
proof -
  have lit: "c \<notin> set (js ''-'')" "c \<notin> set (js ''citation'')"
    using assms(1) by (auto simp: lower_fixed_def js_def)
  have "c \<notin> set ((if truthy year then y @ js ''-'' else []) @ slug s)"
    using assms slug_avoids[of c s] lit by simp
  then have "c \<notin> set (take 60 ((if truthy year then y @ js ''-'' else []) @ slug s))"
    by (meson in_set_takeD)
  then show ?thesis
    using lit by (simp add: key_of_def or_str_def)
qed

text \<open>The lines that \<open>bibtexFromPub\<close> joins.\<close>

definition opt_field :: "bool \<Rightarrow> jsstring \<Rightarrow> jsstring \<Rightarrow> jsstring list" where
  "opt_field b name v = (if b then [field_line name v] else [])"

lemma bibtexFromPub_returns:
  assumes "pub \<noteq> Null" "pub \<noteq> Undefined"
    and "or_val (opt_prop pub (js ''title'')) (Str []) = Str s"
    and "to_string (opt_prop pub (js ''title'')) = Inr t"
    and "to_string (opt_prop pub (js ''authors'')) = Inr a"
    and "to_string (opt_prop pub (js ''year'')) = Inr y"
    and "pub_doi pub = Inr d"
  shows "bibtexFromPub pub =
           Inr (join [c_newline]
                  ([js ''@article{'' @ key_of (opt_prop pub (js ''year'')) y s @ js '','',
                    field_line (js ''title'') t]
                   @ opt_field (truthy (opt_prop pub (js ''authors''))) (js ''author'') a
                   @ opt_field (truthy (opt_prop pub (js ''year''))) (js ''year'') y
                   @ opt_field (d \<noteq> []) (js ''doi'') d
                   @ [js ''}'']))"
proof -
  have fl: "field_line name v \<noteq> []" for name v
    by (simp add: field_line_def js_def)
  have h: "js ''@article{'' \<noteq> []" "js ''}'' \<noteq> []"
    by (simp_all add: js_def)
  show ?thesis
    using assms(3-) fl h
    by (simp add: bibtexFromPub_def bibtexLines0_def pubKey_returns[OF assms(1,2,3,6)]
          get_prop_opt[OF assms(1,2)] and_then_def opt_line_def opt_field_def pub_doi_def)
qed

subsection \<open>Reading the entry back\<close>

text \<open>
  The entry text that \<open>bibtexFromPub\<close> returns goes to \<open>getBibField\<close>. The lemmas below
  follow the description of \<open>getBibField\<close> without patterns through a text in which
  every \<open>=\<close> is the \<open>=\<close> of a field line.

  The name fills a text: the text begins with the name, at a word boundary and in any
  letter case, and goes on with white space only. The name stands in a text when it
  fills the text from some index on.
\<close>

definition name_fills :: "jsstring \<Rightarrow> nat option \<Rightarrow> jsstring \<Rightarrow> bool" where
  "name_fills name prev s \<longleftrightarrow>
     word_before prev \<noteq> word_after s \<and> ci_prefix name s \<and> list_all is_space (drop (length name) s)"

fun name_in :: "jsstring \<Rightarrow> nat option \<Rightarrow> jsstring \<Rightarrow> bool" where
  "name_in name prev [] = False"
| "name_in name prev (c # cs) = (name_fills name prev (c # cs) \<or> name_in name (Some c) cs)"

lemma ci_prefix_before_eq:
  "c_eq \<notin> set name \<Longrightarrow> ci_prefix name (pre @ c_eq # rest) = ci_prefix name pre"
proof (induction name arbitrary: pre)
  case Nil
  show ?case by simp
next
  case (Cons p ps)
  show ?case
  proof (cases pre)
    case Nil
    have "\<not> ci_eq p c_eq"
      using Cons.prems by (auto simp: ci_eq_def canon_def is_lower_def split: if_splits)
    then show ?thesis using Nil by simp
  next
    case (Cons c cs)
    then show ?thesis using Cons.IH[of cs] Cons.prems by simp
  qed
qed

lemma ci_prefix_length: "ci_prefix name s \<Longrightarrow> length name \<le> length s"
  by (induction name s rule: ci_prefix.induct) simp_all

lemma eq_behind_spaces:
  "c_eq \<notin> set w \<Longrightarrow>
     (case dropWhile is_space (w @ c_eq # rest) of
        [] \<Rightarrow> None
      | c # t \<Rightarrow> if c = c_eq then Some t else None)
     = (if list_all is_space w then Some rest else None)"
  by (induction w) (simp_all add: is_space_def)

lemma after_name_before_eq:
  assumes "c_eq \<notin> set pre" "c_eq \<notin> set name" "name \<noteq> []"
  shows "after_name name prev (pre @ c_eq # rest)
           = (if name_fills name prev pre then Some rest else None)"
proof (cases "ci_prefix name pre")
  case False
  then show ?thesis
    by (simp add: after_name_def name_fills_def ci_prefix_before_eq[OF assms(2)])
next
  case True
  have len: "length name \<le> length pre" using True by (rule ci_prefix_length)
  have ne: "pre \<noteq> []" using len assms(3) by auto
  have wa: "word_after (pre @ c_eq # rest) = word_after pre"
    using ne by (cases pre) (simp_all add: word_after_def)
  have "c_eq \<notin> set (drop (length name) pre)"
    using assms(1) by (auto dest: in_set_dropD)
  from eq_behind_spaces[OF this, of rest] show ?thesis
    using True len
    by (simp add: after_name_def name_fills_def ci_prefix_before_eq[OF assms(2)] wa)
qed

text \<open>
  A function of the text behind \<open>name =\<close>, as the three styles are, searched through a
  text with one \<open>=\<close>, and through a text with none.
\<close>

definition behind_name :: "jsstring \<Rightarrow> (jsstring \<Rightarrow> 'a option) \<Rightarrow> nat option \<Rightarrow> jsstring \<Rightarrow> 'a option" where
  "behind_name name g prev s = (case after_name name prev s of None \<Rightarrow> None | Some t \<Rightarrow> g t)"

lemma first_at_before_eq:
  assumes "c_eq \<notin> set pre" "c_eq \<notin> set name" "name \<noteq> []"
  shows "first_at (behind_name name g) prev (pre @ c_eq # rest)
           = (if name_in name prev pre \<and> g rest \<noteq> None then g rest
              else first_at (behind_name name g) (Some c_eq) rest)"
  using assms(1)
proof (induction pre arbitrary: prev)
  case Nil
  have "after_name name prev (c_eq # rest) = None"
    using after_name_before_eq[of "[]" name prev rest] assms(2,3)
    by (cases name) (simp_all add: name_fills_def)
  then have "behind_name name g prev (c_eq # rest) = None"
    by (simp add: behind_name_def)
  then show ?case by simp
next
  case (Cons c cs)
  have "after_name name prev ((c # cs) @ c_eq # rest)
             = (if name_fills name prev (c # cs) then Some rest else None)"
    by (rule after_name_before_eq[OF Cons.prems assms(2,3)])
  then have b: "behind_name name g prev (c # cs @ c_eq # rest)
             = (if name_fills name prev (c # cs) then g rest else None)"
    by (simp add: behind_name_def)
  have ih: "first_at (behind_name name g) (Some c) (cs @ c_eq # rest)
              = (if name_in name (Some c) cs \<and> g rest \<noteq> None then g rest
                 else first_at (behind_name name g) (Some c_eq) rest)"
    using Cons.IH[of "Some c"] Cons.prems by simp
  show ?case
    by (cases "g rest") (simp_all add: b ih)
qed

lemma after_name_needs_eq:
  assumes "c_eq \<notin> set s"
  shows "after_name name prev s = None"
proof -
  define d where "d = dropWhile is_space (drop (length name) s)"
  have "c_eq \<notin> set d"
    using assms unfolding d_def by (auto dest: set_dropWhileD in_set_dropD)
  then show ?thesis
    unfolding after_name_def d_def[symmetric] by (cases d) auto
qed

lemma behind_name_needs_eq: "c_eq \<notin> set s \<Longrightarrow> behind_name name g prev s = None"
  by (simp add: behind_name_def after_name_needs_eq)

lemma first_at_no_eq:
  "c_eq \<notin> set s \<Longrightarrow> first_at (behind_name name g) prev s = None"
  by (induction s arbitrary: prev) (simp_all add: behind_name_needs_eq)

lemma list_all_drop_append:
  assumes "list_all P (drop n (u @ b))" "u \<noteq> []"
  shows "list_all P (drop (n - 1) b)"
proof (cases "n \<le> length u")
  case True
  then have "list_all P b" using assms(1) by simp
  then show ?thesis by (auto simp: list_all_iff dest: in_set_dropD)
next
  case False
  then have "list_all P (drop (n - length u) b)" using assms(1) by simp
  moreover have "set (drop (n - 1) b) \<subseteq> set (drop (n - length u) b)"
    using assms(2) by (intro set_drop_subset_set_drop) (cases u, simp_all)
  ultimately show ?thesis by (auto simp: list_all_iff)
qed

lemma name_in_skip:
  assumes "\<not> list_all is_space (drop (length name - 1) b)"
  shows "name_in name prev (a @ b) = name_in name (prev_after prev a) b"
proof (induction a arbitrary: prev)
  case Nil
  show ?case by simp
next
  case (Cons c cs)
  have "\<not> list_all is_space (drop (length name) ((c # cs) @ b))"
    using assms list_all_drop_append[of is_space "length name" "c # cs" b] by blast
  then have "\<not> name_fills name prev (c # cs @ b)"
    by (simp add: name_fills_def)
  then show ?case using Cons.IH[of "Some c"] by simp
qed

text \<open>
  The lines of the fields of an entry and its closing line, each behind a line feed, for
  fields with the four names that \<open>bibtexFromPub\<close> writes.
\<close>

fun tail_text :: "(jsstring \<times> jsstring) list \<Rightarrow> jsstring" where
  "tail_text [] = c_newline # js ''}''"
| "tail_text ((n, v) # fs) = c_newline # field_line n v @ tail_text fs"

definition field_names :: "jsstring set" where
  "field_names = {js ''title'', js ''author'', js ''year'', js ''doi''}"

lemma field_names_cases:
  "n \<in> field_names \<Longrightarrow> n = js ''title'' \<or> n = js ''author'' \<or> n = js ''year'' \<or> n = js ''doi''"
  by (simp add: field_names_def)

lemma name_in_field:
  assumes "n \<in> field_names" "name \<in> field_names"
  shows "name_in name prev (a @ c_newline # js ''  '' @ n @ js '' '') = (n = name)"
proof -
  let ?b = "c_newline # js ''  '' @ n @ js '' ''"
  note ev = js_def name_fills_def word_before_def word_after_def ci_eq_def canon_def
    is_word_def is_lower_def is_upper_def is_digit_def is_space_def
  have "\<not> list_all is_space (drop (length name - 1) ?b)"
    using field_names_cases[OF assms(1)] field_names_cases[OF assms(2)]
    by (elim disjE; simp add: js_def is_space_def)
  then have "name_in name prev (a @ ?b) = name_in name (prev_after prev a) ?b"
    by (rule name_in_skip)
  also have "\<dots> = (n = name)"
    using field_names_cases[OF assms(1)] field_names_cases[OF assms(2)]
    by (elim disjE; simp add: ev)
  finally show ?thesis .
qed

lemma field_names_plain:
  assumes "name \<in> field_names"
  shows "c_eq \<notin> set name" "name \<noteq> []"
  using assms by (auto simp: field_names_def js_def)

lemma first_at_field:
  assumes "name \<in> field_names" "n \<in> field_names" "c_eq \<notin> set a"
  shows "first_at (behind_name name g) prev (a @ tail_text ((n, v) # fs))
           = (if n = name \<and> g (js '' {'' @ v @ js ''},'' @ tail_text fs) \<noteq> None
              then g (js '' {'' @ v @ js ''},'' @ tail_text fs)
              else first_at (behind_name name g) (Some c_eq) (js '' {'' @ v @ js ''},'' @ tail_text fs))"
proof -
  let ?pre = "a @ c_newline # js ''  '' @ n @ js '' ''"
  let ?vt = "js '' {'' @ v @ js ''},'' @ tail_text fs"
  have e: "a @ tail_text ((n, v) # fs) = ?pre @ c_eq # ?vt"
    by (simp add: field_line_def js_def)
  have "c_eq \<notin> set n"
    using assms(2) by (rule field_names_plain)
  then have pre: "c_eq \<notin> set ?pre"
    using assms(3) by (simp add: js_def)
  show ?thesis
    unfolding e first_at_before_eq[OF pre field_names_plain[OF assms(1)]]
      name_in_field[OF assms(2,1)]
    by (rule refl)
qed

lemma first_at_tail_absent:
  assumes "name \<in> field_names"
  shows "c_eq \<notin> set a \<Longrightarrow> \<forall>(n, v) \<in> set fs. n \<in> field_names \<and> c_eq \<notin> set v
           \<Longrightarrow> map_of fs name = None
           \<Longrightarrow> first_at (behind_name name g) prev (a @ tail_text fs) = None"
proof (induction fs arbitrary: a prev)
  case Nil
  then show ?case by (intro first_at_no_eq) (simp add: js_def)
next
  case (Cons nv fs)
  obtain n v where nv: "nv = (n, v)" by (cases nv)
  have n: "n \<in> field_names" "c_eq \<notin> set v" "n \<noteq> name"
    using Cons.prems(2,3) nv by (auto split: if_splits)
  have "first_at (behind_name name g) (Some c_eq) ((js '' {'' @ v @ js ''},'') @ tail_text fs) = None"
    using Cons.prems(2,3) n nv by (intro Cons.IH) (auto simp: js_def split: if_splits)
  then show ?case
    unfolding nv first_at_field[OF assms n(1) Cons.prems(1)] using n(3) by simp
qed

lemma delim_value_field:
  "c_rbrace \<notin> set v \<Longrightarrow>
     delim_value c_lbrace c_rbrace (js '' {'' @ v @ js ''},'' @ rest) = Some v"
proof -
  assume v: "c_rbrace \<notin> set v"
  have "takeWhile (\<lambda>x. x \<noteq> c_rbrace) (v @ c_rbrace # c_comma # rest) = v"
    using v by (induction v) simp_all
  then show ?thesis
    by (simp add: delim_value_def js_def is_space_def)
qed

lemma first_at_tail_brace:
  assumes "name \<in> field_names"
  shows "c_eq \<notin> set a
           \<Longrightarrow> \<forall>(n, v) \<in> set fs. n \<in> field_names \<and> c_eq \<notin> set v \<and> c_rbrace \<notin> set v
           \<Longrightarrow> first_at (behind_name name (delim_value c_lbrace c_rbrace)) prev (a @ tail_text fs)
                 = map_of fs name"
proof (induction fs arbitrary: a prev)
  case Nil
  then show ?case by (simp add: first_at_no_eq js_def)
next
  case (Cons nv fs)
  obtain n v where nv: "nv = (n, v)" by (cases nv)
  have n: "n \<in> field_names" "c_eq \<notin> set v" "c_rbrace \<notin> set v"
    using Cons.prems(2) nv by auto
  have ih: "first_at (behind_name name (delim_value c_lbrace c_rbrace)) (Some c_eq)
              ((js '' {'' @ v @ js ''},'') @ tail_text fs) = map_of fs name"
    using Cons.prems(2) n by (intro Cons.IH) (auto simp: js_def)
  show ?case
    unfolding nv first_at_field[OF assms n(1) Cons.prems(1)] delim_value_field[OF n(3)]
    using ih by auto
qed

lemma delim_at_behind: "delim_at opn cls name = behind_name name (delim_value opn cls)"
  by (intro ext) (simp add: delim_at_def behind_name_def)

lemma bare_at_behind: "bare_at name = behind_name name bare_value"
  by (intro ext) (simp add: bare_at_def behind_name_def)

text \<open>
  \<open>getBibField\<close> on an entry text of this form reads the value of the first field of the
  name, and the empty string when there is none.
\<close>

lemma getBibField_tail:
  assumes "name \<in> field_names" "c_eq \<notin> set a"
    and "\<forall>(n, v) \<in> set fs. n \<in> field_names \<and> c_eq \<notin> set v \<and> c_rbrace \<notin> set v"
  shows "getBibField (a @ tail_text fs) name
           = (case map_of fs name of None \<Rightarrow> [] | Some v \<Rightarrow> strip_comma (trim v))"
proof (cases "map_of fs name")
  case (Some v)
  then show ?thesis
    using first_at_tail_brace[OF assms, of None]
    by (simp add: getBibField_refines getBibField_spec_def delim_at_behind)
next
  case None
  have fs: "\<forall>(n, v) \<in> set fs. n \<in> field_names \<and> c_eq \<notin> set v"
    using assms(3) by auto
  have "first_at (delim_at c_lbrace c_rbrace name) None (a @ tail_text fs) = None"
    "first_at (delim_at c_dquote c_dquote name) None (a @ tail_text fs) = None"
    "first_at (bare_at name) None (a @ tail_text fs) = None"
    unfolding delim_at_behind bare_at_behind
    by (rule first_at_tail_absent[OF assms(1,2) fs None])+
  then show ?thesis
    using None by (simp add: getBibField_refines getBibField_spec_def)
qed

text \<open>The entry text, as a first line and the lines of its fields.\<close>

definition opt_pair :: "bool \<Rightarrow> jsstring \<Rightarrow> jsstring \<Rightarrow> (jsstring \<times> jsstring) list" where
  "opt_pair b name v = (if b then [(name, v)] else [])"

lemma join_tail_text:
  "join [c_newline] ([h, field_line (js ''title'') t] @ opt_field ba (js ''author'') a
        @ opt_field bb (js ''year'') y @ opt_field bd (js ''doi'') d @ [js ''}''])
     = h @ tail_text ((js ''title'', t) # opt_pair ba (js ''author'') a
          @ opt_pair bb (js ''year'') y @ opt_pair bd (js ''doi'') d)"
  by (simp add: opt_field_def opt_pair_def)

lemma field_names_distinct:
  "js ''title'' \<noteq> js ''author''" "js ''title'' \<noteq> js ''year''" "js ''title'' \<noteq> js ''doi''"
  "js ''author'' \<noteq> js ''year''" "js ''author'' \<noteq> js ''doi''" "js ''year'' \<noteq> js ''doi''"
  "js ''author'' \<noteq> js ''title''" "js ''year'' \<noteq> js ''title''" "js ''doi'' \<noteq> js ''title''"
  "js ''year'' \<noteq> js ''author''" "js ''doi'' \<noteq> js ''author''" "js ''doi'' \<noteq> js ''year''"
  by (simp_all add: js_def)

text \<open>
  An entry text has the field \<open>name\<close> when one of its lines begins with the name as
  \<open>bibtexFromPub\<close> writes it.
\<close>

definition has_field :: "jsstring \<Rightarrow> jsstring \<Rightarrow> bool" where
  "has_field name text \<longleftrightarrow>
     (\<exists>l \<in> set (lines_of text). starts_with l (js ''  '' @ name @ js '' = {''))"

text \<open>
  C3, as amended. Let \<open>pub\<close> be a record, not \<open>null\<close> or \<open>undefined\<close>, whose title is a
  string or falsy (\<open>pub.title || ''\<close> is the string \<open>s\<close>), whose title, authors and year
  have the texts \<open>t\<close>, \<open>a\<close> and \<open>y\<close>, whose normalized DOI is \<open>d\<close>, and let none of the
  four texts hold a line feed. Then \<open>bibtexFromPub\<close> returns an entry text whose first
  line is \<open>@article{key,\<close> and whose last line is \<open>}\<close>; the text has the field \<open>author\<close>
  exactly when the authors of the record are truthy, the field \<open>year\<close> exactly when its
  year is truthy, and the field \<open>doi\<close> exactly when its normalized DOI is not empty, each
  on a line of its own with the text of the value; and it has the line of the title
  when the title is truthy. When the four texts hold no \<open>=\<close> and no closing brace
  either, \<open>getBibField\<close> reads from the entry text what was written: the value of each
  of these fields that has a line, trimmed and without one trailing comma, the empty
  string for \<open>author\<close>, \<open>year\<close> and \<open>doi\<close> where the line is missing, and the title
  when it is truthy.
\<close>

theorem C3_fallback_amended:
  assumes "pub \<noteq> Null" "pub \<noteq> Undefined"
    and "or_val (opt_prop pub (js ''title'')) (Str []) = Str s"
    and "to_string (opt_prop pub (js ''title'')) = Inr t"
    and "to_string (opt_prop pub (js ''authors'')) = Inr a"
    and "to_string (opt_prop pub (js ''year'')) = Inr y"
    and "pub_doi pub = Inr d"
    and "c_newline \<notin> set t \<union> set a \<union> set y \<union> set d"
  shows "\<exists>key text. pubKey pub = Inr key \<and> bibtexFromPub pub = Inr text
     \<and> hd (lines_of text) = js ''@article{'' @ key @ js '',''
     \<and> last (lines_of text) = js ''}''
     \<and> (has_field (js ''author'') text \<longleftrightarrow> truthy (opt_prop pub (js ''authors'')))
     \<and> (has_field (js ''year'') text \<longleftrightarrow> truthy (opt_prop pub (js ''year'')))
     \<and> (has_field (js ''doi'') text \<longleftrightarrow> d \<noteq> [])
     \<and> (truthy (opt_prop pub (js ''authors'')) \<longrightarrow> field_line (js ''author'') a \<in> set (lines_of text))
     \<and> (truthy (opt_prop pub (js ''year'')) \<longrightarrow> field_line (js ''year'') y \<in> set (lines_of text))
     \<and> (d \<noteq> [] \<longrightarrow> field_line (js ''doi'') d \<in> set (lines_of text))
     \<and> (truthy (opt_prop pub (js ''title'')) \<longrightarrow> field_line (js ''title'') t \<in> set (lines_of text))
     \<and> (c_eq \<notin> set t \<union> set a \<union> set y \<union> set d \<and> c_rbrace \<notin> set t \<union> set a \<union> set y \<union> set d
        \<longrightarrow> (truthy (opt_prop pub (js ''title''))
              \<longrightarrow> getBibField text (js ''title'') = strip_comma (trim t))
          \<and> getBibField text (js ''author'')
              = (if truthy (opt_prop pub (js ''authors'')) then strip_comma (trim a) else [])
          \<and> getBibField text (js ''year'')
              = (if truthy (opt_prop pub (js ''year'')) then strip_comma (trim y) else [])
          \<and> getBibField text (js ''doi'') = (if d \<noteq> [] then strip_comma (trim d) else []))"
proof -
  let ?key = "key_of (opt_prop pub (js ''year'')) y s"
  let ?ba = "truthy (opt_prop pub (js ''authors''))"
  let ?bb = "truthy (opt_prop pub (js ''year''))"
  let ?h = "js ''@article{'' @ ?key @ js '',''"
  let ?ls = "[?h, field_line (js ''title'') t]
             @ opt_field ?ba (js ''author'') a
             @ opt_field ?bb (js ''year'') y
             @ opt_field (d \<noteq> []) (js ''doi'') d
             @ [js ''}'']"
  let ?fs = "(js ''title'', t) # opt_pair ?ba (js ''author'') a
             @ opt_pair ?bb (js ''year'') y @ opt_pair (d \<noteq> []) (js ''doi'') d"
  have s: "s = t \<or> s = []"
  proof (cases "truthy (opt_prop pub (js ''title''))")
    case True
    then have "opt_prop pub (js ''title'') = Str s" using assms(3) by (simp add: or_val_def)
    then show ?thesis using assms(4) by simp
  next
    case False
    then show ?thesis using assms(3) by (simp add: or_val_def)
  qed
  have key: "c_newline \<notin> set ?key"
    using key_of_avoids[of c_newline y s] s assms(8) by (auto simp: lower_fixed_def)
  have fl: "c_newline \<in> set (field_line (js ''title'') v) \<longleftrightarrow> c_newline \<in> set v"
    "c_newline \<in> set (field_line (js ''author'') v) \<longleftrightarrow> c_newline \<in> set v"
    "c_newline \<in> set (field_line (js ''year'') v) \<longleftrightarrow> c_newline \<in> set v"
    "c_newline \<in> set (field_line (js ''doi'') v) \<longleftrightarrow> c_newline \<in> set v" for v
    by (simp_all add: field_line_def js_def)
  have hdr: "c_newline \<notin> set ?h" "c_newline \<notin> set (js ''}'')"
    using key by (simp_all add: js_def)
  have nl: "\<forall>l \<in> set ?ls. c_newline \<notin> set l"
    using hdr assms(8) by (auto simp: opt_field_def fl)
  have ret: "bibtexFromPub pub = Inr (join [c_newline] ?ls)"
    by (rule bibtexFromPub_returns[OF assms(1-7)])
  have lines: "lines_of (join [c_newline] ?ls) = ?ls"
    by (rule lines_of_join[OF _ nl]) simp
  have k: "pubKey pub = Inr ?key"
    by (rule pubKey_returns[OF assms(1,2,3,6)])
  have at: "\<not> starts_with ?h (js ''  '' @ nm @ js '' = {'')" for nm
    by (simp add: js_def)
  have c1: "hd ?ls = ?h" by simp
  have c2: "last ?ls = js ''}''" by simp
  have tl: "\<not> starts_with (field_line (js ''title'') t) (js ''  '' @ js ''author'' @ js '' = {'')"
    "\<not> starts_with (field_line (js ''title'') t) (js ''  '' @ js ''year'' @ js '' = {'')"
    "\<not> starts_with (field_line (js ''title'') t) (js ''  '' @ js ''doi'' @ js '' = {'')"
    by (simp_all add: field_line_def js_def)
  have cl: "\<not> starts_with (js ''}'') (js ''  '' @ nm @ js '' = {'')" for nm
    by (simp add: js_def)
  have sw: "starts_with (field_line (js ''author'') v) (js ''  '' @ js ''author'' @ js '' = {'')"
    "\<not> starts_with (field_line (js ''author'') v) (js ''  '' @ js ''year'' @ js '' = {'')"
    "\<not> starts_with (field_line (js ''author'') v) (js ''  '' @ js ''doi'' @ js '' = {'')"
    "\<not> starts_with (field_line (js ''year'') v) (js ''  '' @ js ''author'' @ js '' = {'')"
    "starts_with (field_line (js ''year'') v) (js ''  '' @ js ''year'' @ js '' = {'')"
    "\<not> starts_with (field_line (js ''year'') v) (js ''  '' @ js ''doi'' @ js '' = {'')"
    "\<not> starts_with (field_line (js ''doi'') v) (js ''  '' @ js ''author'' @ js '' = {'')"
    "\<not> starts_with (field_line (js ''doi'') v) (js ''  '' @ js ''year'' @ js '' = {'')"
    "starts_with (field_line (js ''doi'') v) (js ''  '' @ js ''doi'' @ js '' = {'')" for v
    by (simp_all add: field_line_def js_def)
  have c3: "(\<exists>l \<in> set ?ls. starts_with l (js ''  '' @ js ''author'' @ js '' = {'')) \<longleftrightarrow> ?ba"
    using at tl cl sw by (auto simp: opt_field_def)
  have c4: "(\<exists>l \<in> set ?ls. starts_with l (js ''  '' @ js ''year'' @ js '' = {'')) \<longleftrightarrow> ?bb"
    using at tl cl sw by (auto simp: opt_field_def)
  have c5: "(\<exists>l \<in> set ?ls. starts_with l (js ''  '' @ js ''doi'' @ js '' = {'')) \<longleftrightarrow> d \<noteq> []"
    using at tl cl sw by (auto simp: opt_field_def)
  have c6: "?ba \<longrightarrow> field_line (js ''author'') a \<in> set ?ls"
    "?bb \<longrightarrow> field_line (js ''year'') y \<in> set ?ls"
    "d \<noteq> [] \<longrightarrow> field_line (js ''doi'') d \<in> set ?ls"
    "truthy (opt_prop pub (js ''title'')) \<longrightarrow> field_line (js ''title'') t \<in> set ?ls"
    by (simp_all add: opt_field_def)
  have c7: "(truthy (opt_prop pub (js ''title''))
              \<longrightarrow> getBibField (join [c_newline] ?ls) (js ''title'') = strip_comma (trim t))
          \<and> getBibField (join [c_newline] ?ls) (js ''author'')
              = (if ?ba then strip_comma (trim a) else [])
          \<and> getBibField (join [c_newline] ?ls) (js ''year'')
              = (if ?bb then strip_comma (trim y) else [])
          \<and> getBibField (join [c_newline] ?ls) (js ''doi'')
              = (if d \<noteq> [] then strip_comma (trim d) else [])"
    if h: "c_eq \<notin> set t \<union> set a \<union> set y \<union> set d \<and> c_rbrace \<notin> set t \<union> set a \<union> set y \<union> set d"
  proof -
    have "c_eq \<notin> set ?key"
      using key_of_avoids[of c_eq y s] s h by (auto simp: lower_fixed_def)
    then have heq: "c_eq \<notin> set ?h" by (simp add: js_def)
    have fs: "\<forall>(n, v) \<in> set ?fs. n \<in> field_names \<and> c_eq \<notin> set v \<and> c_rbrace \<notin> set v"
      using h by (auto simp: opt_pair_def field_names_def)
    have g: "getBibField (join [c_newline] ?ls) name
               = (case map_of ?fs name of None \<Rightarrow> [] | Some v \<Rightarrow> strip_comma (trim v))"
      if "name \<in> field_names" for name
      unfolding join_tail_text by (rule getBibField_tail[OF that heq fs])
    have m: "map_of ?fs (js ''title'') = Some t"
      "map_of ?fs (js ''author'') = (if ?ba then Some a else None)"
      "map_of ?fs (js ''year'') = (if ?bb then Some y else None)"
      "map_of ?fs (js ''doi'') = (if d \<noteq> [] then Some d else None)"
      by (simp_all add: opt_pair_def field_names_distinct)
    have n: "js ''title'' \<in> field_names" "js ''author'' \<in> field_names"
      "js ''year'' \<in> field_names" "js ''doi'' \<in> field_names"
      by (simp_all add: field_names_def)
    show ?thesis
      unfolding g[OF n(1)] g[OF n(2)] g[OF n(3)] g[OF n(4)] m by simp
  qed
  show ?thesis
    unfolding has_field_def
    by (intro exI[of _ ?key] exI[of _ "join [c_newline] ?ls"] conjI;
        (simp only: lines)?) (rule k ret c1 c2 c3 c4 c5 c6 impI[OF c7])+
qed

lemmas ev_pub = bibtexFromPub_def bibtexLines0_def pubKey_def opt_line_def field_line_def
  and_then_def or_val_def opt_prop_def pub_doi_def normDOI_of_def re_hyphen_ends_def
  one_hyphen_def lines_of_def has_field_def

definition ex_rec :: jsval where
  "ex_rec = Obj [(js ''title'', Str (js ''T'')), (js ''authors'', Str (js ''A. Author'')),
                 (js ''year'', Num True (js ''2020'')), (js ''doi'', Str (js ''doi:''))]"

lemma ex_rec_values:
  "ex_rec \<noteq> Null" "ex_rec \<noteq> Undefined"
  "or_val (opt_prop ex_rec (js ''title'')) (Str []) = Str (js ''T'')"
  "to_string (opt_prop ex_rec (js ''title'')) = Inr (js ''T'')"
  "to_string (opt_prop ex_rec (js ''authors'')) = Inr (js ''A. Author'')"
  "to_string (opt_prop ex_rec (js ''year'')) = Inr (js ''2020'')"
  "pub_doi ex_rec = Inr []"
  "truthy (opt_prop ex_rec (js ''authors''))" "truthy (opt_prop ex_rec (js ''year''))"
  "c_newline \<notin> set (js ''T'') \<union> set (js ''A. Author'') \<union> set (js ''2020'') \<union> set []"
  by (simp_all add: ex_rec_def ev_pub ev_bib)

lemma ex_rec_plain:
  "c_eq \<notin> set (js ''T'') \<union> set (js ''A. Author'') \<union> set (js ''2020'') \<union> set []
   \<and> c_rbrace \<notin> set (js ''T'') \<union> set (js ''A. Author'') \<union> set (js ''2020'') \<union> set []"
  "strip_comma (trim (js ''A. Author'')) = js ''A. Author''"
  "strip_comma (trim (js ''2020'')) = js ''2020''"
  by (simp_all add: js_def strip_comma_def trim_def is_space_def)

theorem C3_fallback_witness:
  "\<exists>text. bibtexFromPub ex_rec = Inr text
     \<and> has_field (js ''author'') text \<and> has_field (js ''year'') text
     \<and> \<not> has_field (js ''doi'') text
     \<and> getBibField text (js ''author'') = js ''A. Author''
     \<and> getBibField text (js ''year'') = js ''2020''
     \<and> getBibField text (js ''doi'') = []"
  using C3_fallback_amended[OF ex_rec_values(1-7,10)] ex_rec_values(8,9) ex_rec_plain
  by auto

text \<open>
  The claim as stated fails for the field \<open>doi\<close>: a DOI of the record that is not empty
  and normalizes to the empty string, such as a lone label, gives no field. The line of
  the title is written in every case, also for an empty title.
\<close>

theorem C3_doi_counterexample:
  "truthy (Str (js ''doi:''))
   \<and> bibtexFromPub (Obj [(js ''title'', Str (js ''T'')), (js ''doi'', Str (js ''doi:''))])
       = Inr (js ''@article{t,\<newline>  title = {T},\<newline>}'')
   \<and> \<not> has_field (js ''doi'') (js ''@article{t,\<newline>  title = {T},\<newline>}'')"
  by (simp add: ev_pub ev_bib)

lemma ex_empty_title:
  "bibtexFromPub (Obj [(js ''title'', Str [])]) = Inr (js ''@article{citation,\<newline>  title = {},\<newline>}'')"
  by (simp add: ev_pub ev_bib)

text \<open>A year that is the number 0 is falsy and writes no line; a title that is \<open>null\<close> is written as such.\<close>

lemma ex_year_zero:
  "bibtexFromPub (Obj [(js ''title'', Null), (js ''year'', Num False (js ''0''))])
     = Inr (js ''@article{citation,\<newline>  title = {null},\<newline>}'')"
  by (simp add: ev_pub ev_bib)


section \<open>DOI normalization\<close>

lemma dropWhile_hd_id: "xs \<noteq> [] \<Longrightarrow> \<not> P (hd xs) \<Longrightarrow> dropWhile P xs = xs"
  by (cases xs) simp_all

lemma trim_id:
  assumes "s \<noteq> []" "\<not> is_space (hd s)" "\<not> is_space (last s)"
  shows "trim s = s"
proof -
  have a: "dropWhile is_space s = s"
    using assms(1,2) by (rule dropWhile_hd_id)
  have "rev s \<noteq> []" "\<not> is_space (hd (rev s))"
    using assms(1,3) by (simp_all add: hd_rev)
  then have b: "dropWhile is_space (rev s) = rev s"
    by (rule dropWhile_hd_id)
  show ?thesis by (simp add: trim_def a b)
qed

lemma search_from_Bol_later: "search_from (Seq Bol x) rpre (Some p) s = None"
  by (induction s arbitrary: rpre p) (simp_all add: search_from.simps mk.simps)

lemma digit_facts:
  assumes "is_digit d"
  shows "\<not> is_space d" "\<not> ci_eq 104 d" "\<not> ci_eq 100 d"
  using assms by (auto simp: is_digit_def is_space_def ci_eq_def canon_def is_lower_def)

lemma search_doi_url_digit:
  assumes "is_digit d"
  shows "search re_doi_url (d # r) = None"
  using digit_facts[OF assms]
  by (simp add: search_def re_doi_url_def seqs_def stri_def chri_def js_def
        search_from.simps mk.simps search_from_Bol_later)

lemma search_doi_label_digit:
  assumes "is_digit d"
  shows "search re_doi_label (d # r) = None"
  using digit_facts[OF assms]
  by (simp add: search_def re_doi_label_def seqs_def stri_def chri_def js_def
        search_from.simps mk.simps star_greedy.simps search_from_Bol_later)

text \<open>A continuation that succeeds only at the end of the text.\<close>

lemma star_greedy_at_end:
  assumes "\<And>cap prev s. k (cap, prev, s) \<noteq> None \<Longrightarrow> s = []"
    and "star_greedy P k (cap, prev, s) = Some r"
  shows "list_all P s"
  using assms(2)
proof (induction s arbitrary: prev)
  case Nil
  show ?case by simp
next
  case (Cons c cs)
  have nk: "k (cap, prev, c # cs) = None"
  proof (rule ccontr)
    assume "k (cap, prev, c # cs) \<noteq> None"
    from assms(1)[OF this] show False by simp
  qed
  then have pc: "P c" and st: "star_greedy P k (cap, Some c, cs) = Some r"
    using Cons.prems by (auto simp: star_greedy.simps split: if_splits option.splits)
  from Cons.IH[OF st] pc show ?case by simp
qed

definition is_punct :: "nat \<Rightarrow> bool" where
  "is_punct c \<longleftrightarrow> c = c_dot \<or> c = c_comma \<or> c = c_semi"

lemma mk_trail_punct_Some:
  assumes "mk re_trail_punct Some (cap, prev, s) = Some r"
  shows "s \<noteq> [] \<and> (is_punct (last s) \<or> is_space (last s))"
proof (cases s)
  case Nil
  then show ?thesis using assms by (simp add: re_trail_punct_def seqs_def mk.simps)
next
  case (Cons c cs)
  have pc: "is_punct c" and st: "star_greedy is_space (mk (Seq Eol Eps) Some) (cap, Some c, cs) = Some r"
    using assms unfolding Cons
    by (auto simp: re_trail_punct_def seqs_def mk.simps is_punct_def split: if_splits)
  have "list_all is_space cs"
  proof (rule star_greedy_at_end[OF _ st])
    fix cap' prev' s'
    assume "mk (Seq Eol Eps) Some (cap', prev', s') \<noteq> None"
    then show "s' = []" by (auto simp: mk.simps split: if_splits)
  qed
  then show ?thesis using pc Cons by (cases "cs = []") (auto simp: list_all_iff)
qed

lemma search_trail_punct_None:
  assumes "s = [] \<or> (\<not> is_punct (last s) \<and> \<not> is_space (last s))"
  shows "search_from re_trail_punct rpre prev s = None"
  using assms
proof (induction s arbitrary: rpre prev)
  case Nil
  have "mk re_trail_punct Some (None, prev, []) = None"
    using mk_trail_punct_Some[of None prev "[]"] by (cases "mk re_trail_punct Some (None, prev, [])") auto
  then show ?case by (simp add: search_from.simps)
next
  case (Cons c cs)
  have "mk re_trail_punct Some (None, prev, c # cs) = None"
    using mk_trail_punct_Some[of None prev "c # cs"] Cons.prems
    by (cases "mk re_trail_punct Some (None, prev, c # cs)") auto
  moreover have "cs = [] \<or> (\<not> is_punct (last cs) \<and> \<not> is_space (last cs))"
    using Cons.prems by (cases "cs = []") auto
  ultimately show ?case using Cons.IH by (simp add: search_from.simps)
qed

lemma lower_cu_idem: "lower_cu (lower_cu c) = lower_cu c"
  by (auto simp: lower_cu_def is_upper_def)

lemma toLowerCase_idem: "toLowerCase (toLowerCase s) = toLowerCase s"
  by (simp add: toLowerCase_def lower_cu_idem)

lemma normDOI_is_lower: "toLowerCase (normDOI s) = normDOI s"
  by (simp add: normDOI_def toLowerCase_idem) (simp add: toLowerCase_def)

text \<open>
  A normal form that begins with a digit, as every DOI \<open>10.prefix/suffix\<close> does, and
  ends neither in white space nor in one of \<open>. , ;\<close>.
\<close>

definition bare_doi :: "jsstring \<Rightarrow> bool" where
  "bare_doi r \<longleftrightarrow> r \<noteq> [] \<and> is_digit (hd r) \<and> \<not> is_space (last r) \<and> \<not> is_punct (last r)"

lemma normDOI_bare:
  assumes "bare_doi r"
  shows "normDOI r = toLowerCase r"
proof -
  from assms obtain d r' where r: "r = d # r'" and d: "is_digit d"
    by (cases r) (auto simp: bare_doi_def)
  have t: "trim r = r"
    using assms digit_facts(1)[OF d] by (intro trim_id) (auto simp: bare_doi_def r)
  have u: "replace re_doi_url empty_str r = r"
    by (simp add: replace_def r search_doi_url_digit[OF d])
  have l: "replace re_doi_label empty_str r = r"
    by (simp add: replace_def r search_doi_label_digit[OF d])
  have p: "replace re_trail_punct empty_str r = r"
    using assms by (simp add: replace_def search_def search_trail_punct_None bare_doi_def)
  show ?thesis
    using assms by (simp add: normDOI_def t u l p bare_doi_def)
qed

text \<open>
  C5, as amended. \<open>normDOI\<close> identifies the case and prefix variants of a DOI: the three
  variants of the specification have the same normal form. It removes one prefix, one
  label and one trailing punctuation mark, and is idempotent on every string of code
  units below 256 whose normal form begins with a digit and ends neither in white
  space nor in one of \<open>. , ;\<close>.
\<close>

theorem C5_normDOI_amended:
  "normDOI (js ''10.1002/JOC.8401'') = normDOI (js ''https://doi.org/10.1002/joc.8401'')
   \<and> normDOI (js ''https://doi.org/10.1002/joc.8401'') = normDOI (js ''doi:10.1002/joc.8401.'')
   \<and> ((\<forall>c \<in> set s. c < 256) \<and> bare_doi (normDOI s) \<longrightarrow> normDOI (normDOI s) = normDOI s)"
proof (intro conjI impI)
  show "normDOI (js ''10.1002/JOC.8401'') = normDOI (js ''https://doi.org/10.1002/joc.8401'')"
    by (simp add: ev_bib)
  show "normDOI (js ''https://doi.org/10.1002/joc.8401'') = normDOI (js ''doi:10.1002/joc.8401.'')"
    by (simp add: ev_bib)
  assume "(\<forall>c \<in> set s. c < 256) \<and> bare_doi (normDOI s)"
  then show "normDOI (normDOI s) = normDOI s"
    by (simp add: normDOI_bare normDOI_is_lower)
qed

theorem C5_normDOI_witness:
  "normDOI (js ''doi:10.1002/joc.8401.'') = js ''10.1002/joc.8401''
   \<and> normDOI (normDOI (js ''doi:10.1002/joc.8401.'')) = normDOI (js ''doi:10.1002/joc.8401.'')"
proof -
  have n: "normDOI (js ''doi:10.1002/joc.8401.'') = js ''10.1002/joc.8401''"
    by (simp add: ev_bib)
  have "\<forall>c \<in> set (js ''doi:10.1002/joc.8401.''). c < 256"
    by (simp add: js_def)
  moreover have "bare_doi (normDOI (js ''doi:10.1002/joc.8401.''))"
    unfolding n by (simp add: bare_doi_def js_def is_digit_def is_space_def is_punct_def)
  ultimately show ?thesis
    using C5_normDOI_amended[of "js ''doi:10.1002/joc.8401.''"] n by blast
qed

text \<open>
  The claim as stated fails: of two trailing full stops, one call removes one.
\<close>

theorem C5_idempotence_counterexample:
  "normDOI (js ''10.1002/joc.8401..'') = js ''10.1002/joc.8401.''
   \<and> normDOI (normDOI (js ''10.1002/joc.8401..'')) = js ''10.1002/joc.8401''"
  by (simp add: ev_bib)



section \<open>Sentence case\<close>

subsection \<open>Replacing all matches, step by step\<close>

lemma search_from_rpre:
  "search_from r rpre prev s
     = map_option (\<lambda>m. m\<lparr>m_pre := rev rpre @ m_pre m\<rparr>) (search_from r [] prev s)"
proof (induction s arbitrary: rpre prev)
  case Nil
  show ?case
    by (cases "mk r Some (None, prev, [])") (auto simp: search_from.simps)
next
  case (Cons c cs)
  show ?case
  proof (cases "mk r Some (None, prev, c # cs)")
    case None
    then show ?thesis
      using Cons.IH[of "c # rpre" "Some c"] Cons.IH[of "[c]" "Some c"]
      by (simp add: search_from.simps option.map_comp comp_def)
  next
    case (Some st)
    then show ?thesis by (cases st) (simp add: search_from.simps)
  qed
qed

lemma replace_all_Nil:
  "mk r Some (None, prev, []) = None \<Longrightarrow> replace_all r f prev [] = []"
  by (simp add: replace_all.simps[of r f prev "[]"] search_from.simps)

lemma replace_all_step:
  assumes "mk r Some (None, prev, c # cs) = None"
    and "\<And>m x. f (m\<lparr>m_pre := x\<rparr>) = f m"
  shows "replace_all r f prev (c # cs) = c # replace_all r f (Some c) cs"
proof -
  have s: "search_from r [] prev (c # cs)
             = map_option (\<lambda>m. m\<lparr>m_pre := c # m_pre m\<rparr>) (search_from r [] (Some c) cs)"
    using assms(1) search_from_rpre[of r "[c]" "Some c" cs] by (simp add: search_from.simps)
  show ?thesis
  proof (cases "search_from r [] (Some c) cs")
    case None
    then show ?thesis
      using s by (simp add: replace_all.simps[of r f prev "c # cs"]
                    replace_all.simps[of r f "Some c" cs])
  next
    case (Some m)
    then show ?thesis
      using s assms(2)
      by (simp add: replace_all.simps[of r f prev "c # cs"]
            replace_all.simps[of r f "Some c" cs])
  qed
qed

lemma replace_all_match:
  assumes "mk r Some (None, prev, s) = Some (cap, p', rest)" and "length rest < length s"
  shows "replace_all r f prev s = f (mk_match [] s (cap, p', rest)) @ replace_all r f p' rest"
proof -
  from mk_Some_suffix[OF assms(1)] obtain u where u: "s = u @ rest" by blast
  then have ne: "u \<noteq> []" using assms(2) by auto
  have t: "take (length s - length rest) s = u" using u by simp
  have sf: "search_from r [] prev s = Some (mk_match [] s (cap, p', rest))"
    using assms(1) by (cases s) (simp_all add: search_from.simps)
  show ?thesis
    using ne t by (simp add: replace_all.simps[of r f prev s] sf)
qed


subsection \<open>The steps of \<open>sentenceCase\<close> without patterns\<close>

text \<open>Every run of white space becomes one space.\<close>

function collapse_ws :: "jsstring \<Rightarrow> jsstring" where
  "collapse_ws [] = []"
| "collapse_ws (c # cs) =
     (if is_space c then c_space # collapse_ws (dropWhile is_space cs) else c # collapse_ws cs)"
  by pat_completeness auto
termination
  by (relation "measure length") (auto simp: length_dropWhile_le less_Suc_eq_le)

text \<open>An opening brace at the start and a closing brace at the end are removed.\<close>

definition strip_close :: "jsstring \<Rightarrow> jsstring" where
  "strip_close s = (if s \<noteq> [] \<and> last s = c_rbrace then butlast s else s)"

definition strip_outer :: "jsstring \<Rightarrow> jsstring" where
  "strip_outer s =
     (case s of [] \<Rightarrow> [] | c # cs \<Rightarrow> if c = c_lbrace then strip_close cs else strip_close (c # cs))"

text \<open>A first letter \<open>a-z\<close> becomes a capital.\<close>

fun cap_first :: "jsstring \<Rightarrow> jsstring" where
  "cap_first [] = []"
| "cap_first (c # cs) = (if is_lower c then (c - 32) # cs else c # cs)"

text \<open>
  A colon, the white space after it and a letter \<open>a-z\<close> become the colon, one space and
  the capital.
\<close>

function cap_colons :: "jsstring \<Rightarrow> jsstring" where
  "cap_colons [] = []"
| "cap_colons (c # cs) =
     (if c = c_colon then
        (case dropWhile is_space cs of
           [] \<Rightarrow> c # cap_colons cs
         | x # xs \<Rightarrow>
             if is_lower x then c_colon # c_space # (x - 32) # cap_colons xs
             else c # cap_colons cs)
      else c # cap_colons cs)"
  by pat_completeness auto
termination
proof (relation "measure length", goal_cases)
  case 1
  show ?case by simp
next
  case (2 c cs)
  then show ?case by simp
next
  case (3 c cs x xs)
  have "length (dropWhile is_space cs) \<le> length cs" by (rule length_dropWhile_le)
  with 3 show ?case by simp
next
  case (4 c cs x xs)
  then show ?case by simp
next
  case (5 c cs)
  then show ?case by simp
qed

lemma star_greedy_Some:
  "star_greedy P Some (cap, prev, s)
     = Some (cap, prev_after prev (takeWhile P s), dropWhile P s)"
  by (induction s arbitrary: prev) (simp_all add: star_greedy.simps)

lemma star_greedy_then:
  assumes "\<And>cap p c cs. P c \<Longrightarrow> k (cap, p, c # cs) = None"
  shows "star_greedy P k (cap, prev, s) = k (cap, prev_after prev (takeWhile P s), dropWhile P s)"
proof (induction s arbitrary: prev)
  case Nil
  show ?case by (simp add: star_greedy.simps)
next
  case (Cons c cs)
  show ?case
  proof (cases "P c")
    case True
    have "k (cap, prev, c # cs) = None" using assms True by simp
    moreover have "k (cap, prev_after (Some c) (takeWhile P cs), dropWhile P cs) = None
                   \<Longrightarrow> k (cap, prev, c # cs) = None"
      using assms True by simp
    ultimately show ?thesis using True Cons.IH[of "Some c"]
      by (cases "k (cap, prev_after (Some c) (takeWhile P cs), dropWhile P cs)")
         (simp_all add: star_greedy.simps)
  next
    case False
    then show ?thesis by (simp add: star_greedy.simps)
  qed
qed

lemma mk_re_spaces:
  "mk re_spaces Some (None, prev, s) =
     (case s of
        [] \<Rightarrow> None
      | c # cs \<Rightarrow> if is_space c
                 then Some (None, prev_after (Some c) (takeWhile is_space cs), dropWhile is_space cs)
                 else None)"
  by (cases s) (simp_all add: re_spaces_def Plus_def mk.simps star_greedy_Some)

lemma replace_all_spaces: "replace_all re_spaces one_space prev s = collapse_ws s"
proof (induction s arbitrary: prev rule: collapse_ws.induct)
  case 1
  show ?case by (simp add: replace_all_Nil mk_re_spaces)
next
  case (2 c cs)
  show ?case
  proof (cases "is_space c")
    case True
    have m: "mk re_spaces Some (None, prev, c # cs)
               = Some (None, prev_after (Some c) (takeWhile is_space cs), dropWhile is_space cs)"
      using True by (simp add: mk_re_spaces)
    have l: "length (dropWhile is_space cs) < length (c # cs)"
      using length_dropWhile_le[of is_space cs] by simp
    show ?thesis
      using True 2(1)[OF True] by (simp add: replace_all_match[OF m l] one_space_def)
  next
    case False
    have m: "mk re_spaces Some (None, prev, c # cs) = None"
      using False by (simp add: mk_re_spaces)
    show ?thesis
      using False 2(2)[OF False] by (simp add: replace_all_step[OF m] one_space_def)
  qed
qed

lemma mk_re_outer_braces:
  "mk re_outer_braces Some (None, prev, s) =
     (case s of
        [] \<Rightarrow> None
      | c # cs \<Rightarrow> if prev = None \<and> c = c_lbrace then Some (None, Some c, cs)
                 else if c = c_rbrace \<and> cs = [] then Some (None, Some c, [])
                 else None)"
  by (cases s; cases prev) (auto simp: re_outer_braces_def chr_def mk.simps)

lemma replace_all_close:
  "replace_all re_outer_braces empty_str (Some p) s = strip_close s"
proof (induction s arbitrary: p)
  case Nil
  show ?case by (simp add: replace_all_Nil mk_re_outer_braces strip_close_def)
next
  case (Cons c cs)
  show ?case
  proof (cases "c = c_rbrace \<and> cs = []")
    case True
    have m: "mk re_outer_braces Some (None, Some p, c # cs) = Some (None, Some c, [])"
      using True by (simp add: mk_re_outer_braces)
    have "replace_all re_outer_braces empty_str (Some p) (c # cs)
            = empty_str (mk_match [] (c # cs) (None, Some c, []))
              @ replace_all re_outer_braces empty_str (Some c) []"
      by (rule replace_all_match[OF m]) simp
    then show ?thesis
      using True
      by (simp add: replace_all_Nil mk_re_outer_braces strip_close_def) (simp add: empty_str_def)
  next
    case False
    have m: "mk re_outer_braces Some (None, Some p, c # cs) = None"
      using False by (auto simp: mk_re_outer_braces)
    show ?thesis
      using False Cons.IH[of c]
      by (auto simp: replace_all_step[OF m] empty_str_def strip_close_def)
  qed
qed

lemma replace_g_outer_braces: "replace_g re_outer_braces empty_str s = strip_outer s"
proof (cases s)
  case Nil
  then show ?thesis
    by (simp add: replace_g_def replace_all_Nil mk_re_outer_braces strip_outer_def)
next
  case (Cons c cs)
  show ?thesis
  proof (cases "c = c_lbrace")
    case True
    have m: "mk re_outer_braces Some (None, None, c # cs) = Some (None, Some c, cs)"
      using True by (simp add: mk_re_outer_braces)
    have "replace_all re_outer_braces empty_str None (c # cs)
            = empty_str (mk_match [] (c # cs) (None, Some c, cs))
              @ replace_all re_outer_braces empty_str (Some c) cs"
      by (rule replace_all_match[OF m]) simp
    then show ?thesis
      using True Cons
      by (simp add: replace_g_def replace_all_close strip_outer_def) (simp add: empty_str_def)
  next
    case False
    show ?thesis
    proof (cases "c = c_rbrace \<and> cs = []")
      case True
      have m: "mk re_outer_braces Some (None, None, c # cs) = Some (None, Some c, [])"
        using True by (simp add: mk_re_outer_braces)
      have "replace_all re_outer_braces empty_str None (c # cs)
              = empty_str (mk_match [] (c # cs) (None, Some c, []))
                @ replace_all re_outer_braces empty_str (Some c) []"
        by (rule replace_all_match[OF m]) simp
      then show ?thesis
        using True Cons
        by (simp add: replace_g_def replace_all_Nil mk_re_outer_braces strip_outer_def
              strip_close_def) (simp add: empty_str_def)
    next
      case nc: False
      have m: "mk re_outer_braces Some (None, None, c # cs) = None"
        using False nc by (auto simp: mk_re_outer_braces)
      show ?thesis
        using False nc Cons
        by (auto simp: replace_g_def replace_all_step[OF m] empty_str_def replace_all_close
              strip_outer_def strip_close_def)
    qed
  qed
qed

lemma upper_cu_lower: "is_lower c \<Longrightarrow> upper_cu c = [c - 32]"
  by (simp add: upper_cu_def)

lemma replace_first_lower: "replace re_first_lower upper_match l = cap_first l"
proof (cases l)
  case Nil
  then show ?thesis
    by (simp add: replace_def search_def search_from.simps re_first_lower_def mk.simps)
next
  case (Cons c cs)
  show ?thesis
  proof (cases "is_lower c")
    case True
    then show ?thesis
      using Cons
      by (simp add: replace_def search_def search_from.simps re_first_lower_def mk.simps
            upper_match_def toUpperCase_def upper_cu_lower)
  next
    case False
    then show ?thesis
      using Cons
      by (simp add: replace_def search_def search_from.simps re_first_lower_def mk.simps
            search_from_Bol_later)
  qed
qed


lemma space_not_lower: "is_space c \<Longrightarrow> \<not> is_lower c"
  by (auto simp: is_space_def is_lower_def)

lemma mk_re_colon_lower:
  "mk re_colon_lower Some (None, prev, s) =
     (case s of
        [] \<Rightarrow> None
      | c # cs \<Rightarrow>
          if c = c_colon then
            (case dropWhile is_space cs of
               [] \<Rightarrow> None
             | x # xs \<Rightarrow> if is_lower x then Some (Some (x # xs, xs), Some x, xs) else None)
          else None)"
proof (cases s)
  case Nil
  then show ?thesis by (simp add: re_colon_lower_def mk_seqs_Cons chr_def mk.simps)
next
  case (Cons c cs)
  let ?k = "mk (seqs [Grp (Cls is_lower)]) Some"
  have k: "?k (cap, p, t) =
             (case t of [] \<Rightarrow> None
              | x # xs \<Rightarrow> if is_lower x then Some (Some (x # xs, xs), Some x, xs) else None)"
    for cap p t
    by (cases t) (simp_all add: mk_seqs_Cons mk_seqs_Nil mk.simps)
  have "star_greedy is_space ?k (None, Some p, cs)
          = ?k (None, prev_after (Some p) (takeWhile is_space cs), dropWhile is_space cs)" for p
    by (rule star_greedy_then) (simp add: k space_not_lower)
  then have "mk re_colon_lower Some (None, prev, c # cs)
          = (if c = c_colon
             then ?k (None, prev_after (Some c) (takeWhile is_space cs), dropWhile is_space cs)
             else None)"
    unfolding re_colon_lower_def
    by (subst mk_seqs_Cons, subst mk_seqs_Cons) (simp add: chr_def mk.simps)
  then show ?thesis using Cons by (simp add: k)
qed

lemma replace_all_colons: "replace_all re_colon_lower colon_upper prev s = cap_colons s"
proof (induction s arbitrary: prev rule: cap_colons.induct)
  case 1
  show ?case by (simp add: replace_all_Nil mk_re_colon_lower)
next
  case (2 c cs)
  show ?case
  proof (cases "c = c_colon \<and> (\<exists>x xs. dropWhile is_space cs = x # xs \<and> is_lower x)")
    case True
    then obtain x xs where d: "dropWhile is_space cs = x # xs" and x: "is_lower x" by blast
    have m: "mk re_colon_lower Some (None, prev, c # cs) = Some (Some (x # xs, xs), Some x, xs)"
      using True d x by (simp add: mk_re_colon_lower)
    have l: "length xs < length (c # cs)"
      using length_dropWhile_le[of is_space cs] d by simp
    have e: "replace_all re_colon_lower colon_upper prev (c # cs)
               = colon_upper (mk_match [] (c # cs) (Some (x # xs, xs), Some x, xs))
                 @ replace_all re_colon_lower colon_upper (Some x) xs"
      by (rule replace_all_match[OF m l])
    have f: "colon_upper (mk_match [] (c # cs) (Some (x # xs, xs), Some x, xs))
               = [c_colon, c_space, x - 32]"
      using x by (simp add: colon_upper_def group1_def toUpperCase_def upper_cu_lower js_def)
    have ih: "replace_all re_colon_lower colon_upper (Some x) xs = cap_colons xs"
      using True d x by (intro 2(2)) simp_all
    show ?thesis
      unfolding e f ih using True d x by simp
  next
    case False
    have m: "mk re_colon_lower Some (None, prev, c # cs) = None"
      using False by (auto simp: mk_re_colon_lower split: list.splits)
    have st: "replace_all re_colon_lower colon_upper prev (c # cs)
                = c # replace_all re_colon_lower colon_upper (Some c) cs"
      by (rule replace_all_step[OF m]) (simp add: colon_upper_def group1_def)
    have ih: "replace_all re_colon_lower colon_upper (Some c) cs = cap_colons cs"
    proof (cases "c = c_colon")
      case True
      show ?thesis
      proof (cases "dropWhile is_space cs")
        case Nil
        then show ?thesis using True by (intro 2(1)) simp_all
      next
        case (Cons x xs)
        then have "\<not> is_lower x" using False True by simp
        then show ?thesis using True Cons by (intro 2(3)) simp_all
      qed
    next
      case False
      then show ?thesis by (intro 2(4)) simp
    qed
    show ?thesis
      using False by (auto simp: st ih split: list.splits)
  qed
qed

text \<open>The tokens of \<open>split(/\b/)\<close>: the maximal runs of word and of other code units.\<close>

fun word_tokens :: "jsstring \<Rightarrow> jsstring list" where
  "word_tokens [] = [[]]"
| "word_tokens [c] = [[c]]"
| "word_tokens (c # d # s) =
     (if is_word c = is_word d
      then (case word_tokens (d # s) of [] \<Rightarrow> [[c]] | t # ts \<Rightarrow> (c # t) # ts)
      else [c] # word_tokens (d # s))"

fun extend_first :: "jsstring \<Rightarrow> jsstring list \<Rightarrow> jsstring list" where
  "extend_first u [] = [u]"
| "extend_first u (t # ts) = (u @ t) # ts"

lemma word_tokens_not_Nil: "word_tokens s \<noteq> []"
  by (induction s rule: word_tokens.induct) (auto split: list.splits)

lemma word_tokens_Cons2:
  "word_tokens (c # d # s) =
     (if is_word c = is_word d then extend_first [c] (word_tokens (d # s))
      else [c] # word_tokens (d # s))"
  using word_tokens_not_Nil[of "d # s"] by (cases "word_tokens (d # s)") simp_all

lemma extend_first_append:
  "ts \<noteq> [] \<Longrightarrow> extend_first u (extend_first w ts) = extend_first (u @ w) ts"
  by (cases ts) simp_all

lemma mk_WordB_Some:
  "mk WordB Some (None, prev, s)
     = (if word_before prev \<noteq> word_after s then Some (None, prev, s) else None)"
  by (simp add: mk.simps)

lemma split_loop_WordB:
  "split_loop WordB racc (Some p) s = extend_first (rev racc) (tl_tokens)"
  if "tl_tokens = (case word_tokens (p # s) of [] \<Rightarrow> [] | t # ts \<Rightarrow> tl t # ts)" and "racc \<noteq> []"
     and "hd racc = p"
  using that
proof (induction s arbitrary: racc p tl_tokens)
  case Nil
  then show ?case by (simp add: split_loop.simps)
next
  case (Cons c cs)
  obtain t ts where wt: "word_tokens (c # cs) = t # ts"
    using word_tokens_not_Nil[of "c # cs"] by (cases "word_tokens (c # cs)") auto
  have ih: "split_loop WordB (c # r) (Some c) cs = extend_first (rev (c # r)) (tl t # ts)" for r
    by (rule Cons.IH) (simp_all add: wt)
  show ?case
  proof (cases "is_word p = is_word c")
    case True
    then have m: "mk WordB Some (None, Some p, c # cs) = None"
      by (simp add: mk_WordB_Some word_before_def word_after_def)
    have t: "t \<noteq> [] \<and> hd t = c"
      using wt by (cases cs) (auto simp: split: if_splits list.splits)
    then have tt: "c # tl t = t" by (cases t) auto
    have "tl_tokens = t # ts"
      using Cons.prems(1) True wt by (simp add: word_tokens_Cons2)
    then show ?thesis
      using m ih[of racc] tt by (simp add: split_loop.simps)
  next
    case False
    then have m: "mk WordB Some (None, Some p, c # cs) = Some (None, Some p, c # cs)"
      by (simp add: mk_WordB_Some word_before_def word_after_def)
    have m2: "mk WordB Some (None, Some p, c # cs) \<noteq> None" using m by simp
    have t: "t \<noteq> [] \<and> hd t = c"
      using wt by (cases cs) (auto simp: split: if_splits list.splits)
    then have tt: "c # tl t = t" by (cases t) auto
    have tk: "tl_tokens = [] # t # ts"
      using Cons.prems(1) False wt by (simp add: word_tokens_Cons2)
    have "split_loop WordB racc (Some p) (c # cs) = rev racc # split_loop WordB [] (Some p) (c # cs)"
      using m Cons.prems(2) by (simp add: split_loop.simps)
    also have "split_loop WordB [] (Some p) (c # cs) = split_loop WordB [c] (Some c) cs"
      using m by (simp add: split_loop.simps)
    also have "\<dots> = t # ts" using ih[of "[]"] tt by simp
    finally show ?thesis using tk by simp
  qed
qed

lemma split_re_WordB: "split_re WordB s = word_tokens s"
proof (cases s)
  case Nil
  then show ?thesis by (simp add: split_re_def mk.simps word_before_def word_after_def)
next
  case (Cons c cs)
  obtain t ts where wt: "word_tokens (c # cs) = t # ts"
    using word_tokens_not_Nil[of "c # cs"] by (cases "word_tokens (c # cs)") auto
  have t: "t \<noteq> [] \<and> hd t = c"
    using wt by (cases cs) (auto simp: split: if_splits list.splits)
  then have tt: "c # tl t = t" by (cases t) auto
  have "split_loop WordB [] None (c # cs) = split_loop WordB [c] (Some c) cs"
    by (cases "mk WordB Some (None, None, c # cs)")
       (auto simp: split_loop.simps mk_WordB_Some split: if_splits)
  also have "\<dots> = extend_first (rev [c]) (tl t # ts)"
    by (rule split_loop_WordB) (simp_all add: wt)
  finally show ?thesis using Cons wt tt by (simp add: split_re_def)
qed


text \<open>Two upper-case letters \<open>A-Z\<close> next to each other.\<close>

fun adjacent_caps :: "jsstring \<Rightarrow> bool" where
  "adjacent_caps (a # b # r) = ((is_upper a \<and> is_upper b) \<or> adjacent_caps (b # r))"
| "adjacent_caps [a] = False"
| "adjacent_caps [] = False"

lemma mk_seqs_Nil_fun: "mk (seqs []) k = k"
  by (rule ext) (simp add: mk_seqs_Nil)

lemma mk_re_caps2:
  "mk re_caps2 Some (None, prev, s) =
     (case s of
        a # b # r \<Rightarrow>
          if is_upper a \<and> is_upper b
          then Some (None, prev_after (Some b) (takeWhile is_upper r), dropWhile is_upper r)
          else None
      | _ \<Rightarrow> None)"
  by (simp add: re_caps2_def mk_seqs_Cons mk_seqs_Nil_fun mk.simps star_greedy_Some
        split: list.split)

lemma search_re_caps2:
  "search_from re_caps2 rpre prev s \<noteq> None \<longleftrightarrow> adjacent_caps s"
proof (induction s arbitrary: rpre prev rule: adjacent_caps.induct)
  case (1 a b r)
  have u: "search_from re_caps2 rpre prev (a # b # r)
             = (case mk re_caps2 Some (None, prev, a # b # r) of
                  Some st \<Rightarrow> Some (mk_match rpre (a # b # r) st)
                | None \<Rightarrow> search_from re_caps2 (a # rpre) (Some a) (b # r))"
    by (simp only: search_from.simps)
  show ?case
  proof (cases "is_upper a \<and> is_upper b")
    case True
    then show ?thesis unfolding u by (simp add: mk_re_caps2)
  next
    case False
    then have "mk re_caps2 Some (None, prev, a # b # r) = None"
      by (auto simp: mk_re_caps2)
    then show ?thesis unfolding u using False 1[of "a # rpre" "Some a"] by auto
  qed
next
  case (2 a)
  show ?case by (simp add: search_from.simps mk_re_caps2)
next
  case 3
  show ?case by (simp add: search_from.simps mk_re_caps2)
qed

lemma test_re_caps2: "test re_caps2 t = adjacent_caps t"
  unfolding test_def search_def by (rule search_re_caps2)

text \<open>The text is cut at the first full stop that only white space follows.\<close>

fun strip_dot :: "jsstring \<Rightarrow> jsstring" where
  "strip_dot [] = []"
| "strip_dot (c # cs) = (if c = c_dot \<and> list_all is_space cs then [] else c # strip_dot cs)"

lemma mk_trail_dot:
  "mk re_trail_dot Some (cap, prev, s) =
     (case s of
        [] \<Rightarrow> None
      | c # cs \<Rightarrow> if c = c_dot \<and> list_all is_space cs
                 then Some (cap, prev_after (Some c) cs, []) else None)"
proof (cases s)
  case Nil
  then show ?thesis by (simp add: re_trail_dot_def mk_seqs_Cons chr_def mk.simps)
next
  case (Cons c cs)
  have "mk re_trail_dot Some (cap, prev, c # cs)
          = (if c = c_dot then star_greedy is_space (mk (seqs [Eol]) Some) (cap, Some c, cs) else None)"
    unfolding re_trail_dot_def
    by (subst mk_seqs_Cons, subst mk_seqs_Cons) (simp add: chr_def mk.simps)
  then show ?thesis using Cons by (simp add: star_greedy_to_end)
qed

lemma search_trail_dot:
  "(case search_from re_trail_dot rpre prev s of
      None \<Rightarrow> rev rpre @ s
    | Some m \<Rightarrow> m_pre m @ m_rest m) = rev rpre @ strip_dot s"
proof (induction s arbitrary: rpre prev)
  case Nil
  show ?case by (simp add: search_from.simps mk_trail_dot)
next
  case (Cons c cs)
  show ?case
  proof (cases "c = c_dot \<and> list_all is_space cs")
    case True
    then show ?thesis by (simp add: search_from.simps mk_trail_dot)
  next
    case False
    then have "mk re_trail_dot Some (None, prev, c # cs) = None"
      by (auto simp: mk_trail_dot)
    then show ?thesis using False Cons.IH[of "c # rpre" "Some c"]
      by (cases "search_from re_trail_dot (c # rpre) (Some c) cs")
         (auto simp: search_from.simps)
  qed
qed

lemma replace_trail_dot: "replace re_trail_dot empty_str x = strip_dot x"
  using search_trail_dot[where rpre = "[]" and prev = None and s = x]
  by (cases "search re_trail_dot x") (simp_all add: replace_def search_def empty_str_def)

text \<open>
  The loop over the tokens without a pattern: a token of the original with two adjacent
  capitals stands, every other token is taken from the capitalized lower-case text.
\<close>

fun keep_caps :: "jsstring list \<Rightarrow> jsstring list \<Rightarrow> jsstring list" where
  "keep_caps [] outTokens = outTokens"
| "keep_caps (t # ts) [] = (if adjacent_caps t then t else []) # keep_caps ts []"
| "keep_caps (t # ts) (out # outs) = (if adjacent_caps t then t else out) # keep_caps ts outs"

lemma keepCaps_keep_caps: "keepCaps ts os = keep_caps ts os"
  by (induction ts os rule: keepCaps.induct) (simp_all add: test_re_caps2)

lemma keep_caps_map2:
  "length ts = length os \<Longrightarrow>
     keep_caps ts os = map (\<lambda>(w, out). if adjacent_caps w then w else out) (zip ts os)"
  by (induction ts os rule: keep_caps.induct) simp_all


subsection \<open>The tokens of the two texts correspond\<close>

text \<open>The number of maximal runs of a list of truth values.\<close>

fun runs :: "bool list \<Rightarrow> nat" where
  "runs [] = 1"
| "runs [b] = 1"
| "runs (a # b # r) = (if a = b then runs (b # r) else Suc (runs (b # r)))"

lemma length_extend_first: "ts \<noteq> [] \<Longrightarrow> length (extend_first u ts) = length ts"
  by (cases ts) simp_all

lemma length_word_tokens: "length (word_tokens s) = runs (map is_word s)"
proof (induction s rule: word_tokens.induct)
  case 1
  show ?case by simp
next
  case (2 c)
  show ?case by simp
next
  case (3 c d s)
  have ne: "word_tokens (d # s) \<noteq> []" by (rule word_tokens_not_Nil)
  show ?case
  proof (cases "is_word c = is_word d")
    case True
    have "length (word_tokens (c # d # s)) = length (word_tokens (d # s))"
      using True by (simp add: word_tokens_Cons2 length_extend_first[OF ne] del: word_tokens.simps)
    then show ?thesis using True 3(1)[OF True] by simp
  next
    case False
    have "length (word_tokens (c # d # s)) = Suc (length (word_tokens (d # s)))"
      using False by (simp add: word_tokens_Cons2 del: word_tokens.simps)
    then show ?thesis using False 3(2)[OF False] by simp
  qed
qed

lemma runs_same: "runs (b # b # r) = runs (b # r)"
  by simp

lemma runs_hd: "x \<noteq> [] \<Longrightarrow> runs (hd x # x) = runs x"
  by (cases x) simp_all

lemma runs_skip:
  "\<forall>c \<in> set ws. \<not> is_word c \<Longrightarrow> runs (False # map is_word ws @ r) = runs (False # r)"
  by (induction ws) simp_all

lemma is_word_lower_cu: "is_word (lower_cu c) = is_word c"
  by (auto simp: lower_cu_def is_word_def is_lower_def is_upper_def is_digit_def)

lemma shape_toLowerCase: "map is_word (toLowerCase s) = map is_word s"
  by (simp add: toLowerCase_def is_word_lower_cu)

lemma shape_cap_first: "map is_word (cap_first l) = map is_word l"
  by (cases l) (auto simp: is_word_def is_lower_def is_upper_def is_digit_def)

lemma space_not_word: "is_space c \<Longrightarrow> \<not> is_word c"
  by (auto simp: is_space_def is_word_def is_lower_def is_upper_def is_digit_def)

lemma runs_cap_colons:
  "runs (b # map is_word (cap_colons l)) = runs (b # map is_word l)"
proof (induction l arbitrary: b rule: cap_colons.induct)
  case 1
  show ?case by simp
next
  case (2 c cs)
  show ?case
  proof (cases "c = c_colon \<and> (\<exists>x xs. dropWhile is_space cs = x # xs \<and> is_lower x)")
    case True
    then obtain x xs where d: "dropWhile is_space cs = x # xs" and x: "is_lower x" by blast
    have cs: "cs = takeWhile is_space cs @ x # xs"
      using d by (metis takeWhile_dropWhile_id)
    have nw: "\<forall>c \<in> set (takeWhile is_space cs). \<not> is_word c"
      by (auto dest: set_takeWhileD space_not_word)
    have wx: "is_word x" "is_word (x - 32)"
      using x by (auto simp: is_word_def is_lower_def is_upper_def)
    have ih: "runs (True # map is_word (cap_colons xs)) = runs (True # map is_word xs)"
      using True d x by (intro 2(2)) simp_all
    have l: "runs (b # map is_word (c # cs))
               = runs (b # False # map is_word (takeWhile is_space cs) @ True # map is_word xs)"
      using True wx by (subst cs) (simp add: is_word_def is_lower_def is_upper_def is_digit_def)
    have "runs (False # map is_word (takeWhile is_space cs) @ True # map is_word xs)
            = runs (False # True # map is_word xs)"
      by (rule runs_skip[OF nw])
    then have l2: "runs (b # map is_word (c # cs)) = runs (b # False # True # map is_word xs)"
      unfolding l by (cases b) simp_all
    have r: "runs (b # map is_word (cap_colons (c # cs)))
               = runs (b # False # False # True # map is_word (cap_colons xs))"
      using True d x wx by (simp add: is_word_def is_lower_def is_upper_def is_digit_def is_space_def)
    show ?thesis
      unfolding l2 r using ih by (cases b) simp_all
  next
    case False
    have e: "cap_colons (c # cs) = c # cap_colons cs"
      using False by (auto split: list.splits)
    have ih: "runs (is_word c # map is_word (cap_colons cs)) = runs (is_word c # map is_word cs)"
    proof (cases "c = c_colon")
      case True
      show ?thesis
      proof (cases "dropWhile is_space cs")
        case Nil
        then show ?thesis using True by (intro 2(1)) simp_all
      next
        case (Cons x xs)
        then have "\<not> is_lower x" using False True by simp
        then show ?thesis using True Cons by (intro 2(3)) simp_all
      qed
    next
      case False
      then show ?thesis by (intro 2(4)) simp
    qed
    show ?thesis unfolding e using ih by simp
  qed
qed

lemma cap_colons_hd: "cap_colons (c # cs) = c # tl (cap_colons (c # cs))"
  by (auto split: list.splits)

lemma runs_shape_cap_colons: "runs (map is_word (cap_colons l)) = runs (map is_word l)"
proof (cases l)
  case Nil
  then show ?thesis by simp
next
  case (Cons c cs)
  have "runs (map is_word (cap_colons l)) = runs (is_word c # map is_word (cap_colons l))"
    using cap_colons_hd[of c cs] Cons
    by (metis list.simps(9) runs_same)
  also have "\<dots> = runs (is_word c # map is_word l)" by (rule runs_cap_colons)
  also have "\<dots> = runs (map is_word l)" using Cons by simp
  finally show ?thesis .
qed

lemma tokens_correspond:
  "length (word_tokens (cap_colons (cap_first (toLowerCase s)))) = length (word_tokens s)"
  by (simp add: length_word_tokens runs_shape_cap_colons shape_cap_first shape_toLowerCase)

subsection \<open>Sentence case without patterns\<close>

definition sentence_case_spec :: "jsstring \<Rightarrow> jsstring" where
  "sentence_case_spec t =
     (if t = [] then []
      else
        (let s = strip_outer (trim (collapse_ws t));
             out = cap_colons (cap_first (toLowerCase s))
         in strip_dot
              (concat (map (\<lambda>(w, out). if adjacent_caps w then w else out)
                         (zip (word_tokens s) (word_tokens out))))))"

text \<open>
  C4, as amended. For every title of code units below 256, \<open>sentenceCase\<close> collapses
  the white space, trims, removes an opening brace at the start and a closing brace at
  the end, lower-cases the whole text, capitalizes a first letter \<open>a-z\<close> and the first
  letter \<open>a-z\<close> after each colon, and then keeps verbatim exactly those tokens of the
  original (maximal runs of word characters, or of other code units) that contain two
  adjacent capitals \<open>A-Z\<close>, such as \<open>USA\<close> and also \<open>NetCDF\<close>; every other token is the
  corresponding token of the capitalized lower-case text, and the two texts have the
  same number of tokens. The result is cut at a final full stop.
\<close>

theorem C4_sentenceCase_amended:
  "(\<forall>c \<in> set t. c < 256) \<longrightarrow>
     sentenceCase t = sentence_case_spec t
     \<and> length (word_tokens (cap_colons (cap_first (toLowerCase (strip_outer (trim (collapse_ws t)))))))
         = length (word_tokens (strip_outer (trim (collapse_ws t))))"
proof (intro impI conjI)
  let ?s = "strip_outer (trim (collapse_ws t))"
  let ?out = "cap_colons (cap_first (toLowerCase ?s))"
  have len: "length (word_tokens ?s) = length (word_tokens ?out)"
    by (simp add: tokens_correspond)
  show "length (word_tokens ?out) = length (word_tokens ?s)"
    by (rule tokens_correspond)
  have "sentenceCase t =
          (if t = [] then []
           else strip_dot (concat (keep_caps (word_tokens ?s) (word_tokens ?out))))"
    by (simp add: sentenceCase_def Let_def replace_g_def replace_all_spaces
          replace_g_outer_braces[unfolded replace_g_def] replace_first_lower replace_all_colons
          split_re_WordB keepCaps_keep_caps replace_trail_dot)
  then show "sentenceCase t = sentence_case_spec t"
    by (simp add: sentence_case_spec_def Let_def keep_caps_map2[OF len])
qed


lemma ex_netcdf:
  "sentenceCase (js ''the NetCDF format: a USA story.'') = js ''The NetCDF format: A USA story''"
  by (simp add: ev_apa Let_def)

theorem C4_sentenceCase_witness:
  "sentence_case_spec (js ''the NetCDF format: a USA story.'') = js ''The NetCDF format: A USA story''"
proof -
  have "\<forall>c \<in> set (js ''the NetCDF format: a USA story.''). c < 256"
    by (simp add: js_def)
  then have "sentenceCase (js ''the NetCDF format: a USA story.'')
               = sentence_case_spec (js ''the NetCDF format: a USA story.'')"
    using C4_sentenceCase_amended[of "js ''the NetCDF format: a USA story.''"] by blast
  then show ?thesis using ex_netcdf by simp
qed

text \<open>
  The claim as stated fails: a word that is not entirely upper-case is kept verbatim as
  soon as it has two adjacent capitals.
\<close>

theorem C4_caps_counterexample:
  "sentenceCase (js ''the NetCDF format'') = js ''The NetCDF format''
   \<and> split_re WordB (js ''the NetCDF format'')
       = [js ''the'', js '' '', js ''NetCDF'', js '' '', js ''format'']
   \<and> \<not> list_all is_upper (js ''NetCDF'')"
  by (simp add: ev_apa Let_def)


end

